theory Spec2Isabelle
  imports Main "HOL-Library.Sublist" "HOL-Library.AList"
begin

chapter \<open>The model of the generator\<close>

section \<open>JavaScript strings\<close>

text \<open>
  The generator (\<^verbatim>\<open>src/plugins/cpp/cpp-parser-generator-trait.js\<close>) works on
  JavaScript strings. A string is modelled as a list of characters, each character read as
  one code unit in the range U+0000..U+00FF. The functions of this section are the string
  methods and the regular expressions the generator uses.
\<close>

definition isSpace :: "char \<Rightarrow> bool" where
  \<comment> \<open>The class \<^verbatim>\<open>\s\<close> (also what \<^verbatim>\<open>trim\<close> removes): TAB, LF, VT, FF, CR, SP, NBSP.\<close>
  "isSpace c = (c \<in> set [CHR 0x09, CHR 0x0A, CHR 0x0B, CHR 0x0C, CHR 0x0D, CHR 0x20, CHR 0xA0])"

definition isWord :: "char \<Rightarrow> bool" where
  \<comment> \<open>The class \<^verbatim>\<open>\w\<close>: digits, letters and the underscore.\<close>
  "isWord c = (let n = (of_char c :: nat) in
     (48 \<le> n \<and> n \<le> 57) \<or> (65 \<le> n \<and> n \<le> 90) \<or> n = 95 \<or> (97 \<le> n \<and> n \<le> 122))"

fun str_includes :: "string \<Rightarrow> string \<Rightarrow> bool" where
  \<comment> \<open>\<^verbatim>\<open>s.includes(p)\<close>\<close>
  "str_includes [] p = (p = [])"
| "str_includes (c # cs) p = (prefix p (c # cs) \<or> str_includes cs p)"

fun occurrences :: "string \<Rightarrow> string \<Rightarrow> nat" where
  \<comment> \<open>The number of positions of \<open>s\<close> at which \<open>p\<close> starts.\<close>
  "occurrences p [] = (if p = [] then 1 else 0)"
| "occurrences p (c # cs) = (if prefix p (c # cs) then 1 else 0) + occurrences p cs"

text \<open>
  The reading of "the text refers to the name \<open>w\<close>" in the words of the specification:
  \<open>w\<close> stands in the text as a whole word, with no word character before it and none
  behind it. The first argument is the character before the current position.
\<close>

fun occursAsWord :: "char option \<Rightarrow> string \<Rightarrow> string \<Rightarrow> bool" where
  "occursAsWord p w [] = False"
| "occursAsWord p w (c # cs) =
     (((case p of None \<Rightarrow> True | Some q \<Rightarrow> \<not> isWord q) \<and> prefix w (c # cs) \<and>
       (case drop (length w) (c # cs) of [] \<Rightarrow> True | d # _ \<Rightarrow> \<not> isWord d))
      \<or> occursAsWord (Some c) w cs)"

definition trim :: "string \<Rightarrow> string" where
  \<comment> \<open>\<^verbatim>\<open>s.trim()\<close>\<close>
  "trim s = rev (dropWhile isSpace (rev (dropWhile isSpace s)))"

fun join :: "string \<Rightarrow> string list \<Rightarrow> string" where
  \<comment> \<open>\<^verbatim>\<open>xs.join(sep)\<close>\<close>
  "join sep [] = []"
| "join sep [x] = x"
| "join sep (x # y # ys) = x @ sep @ join sep (y # ys)"

definition digit_char :: "nat \<Rightarrow> char" where
  "digit_char d = ''0123456789'' ! d"

function show_nat :: "nat \<Rightarrow> string" where
  \<comment> \<open>A number in a template literal: its decimal digits.\<close>
  "show_nat n = (if n < 10 then [digit_char n] else show_nat (n div 10) @ [digit_char (n mod 10)])"
  by pat_completeness auto
termination
  by (relation "measure id") auto

declare show_nat.simps [simp del]

section \<open>The grammar and the generator's state\<close>

text \<open>
  The grammar classes are the generator's collaborators; the generator reads them through
  the getters named here. A production carries what \<^verbatim>\<open>getRHS()\<close>,
  \<^verbatim>\<open>isEpsilon()\<close> and \<^verbatim>\<open>derivesPropagatingToken()\<close> return, and what
  \<^verbatim>\<open>getSemanticActionCode(production)\<close> returns for it (\<open>None\<close> for \<^verbatim>\<open>null\<close>).
\<close>

type_synonym symbol = string

record production =
  getRHS :: "symbol list"
  isEpsilon :: bool
  derivesPropagatingToken :: bool
  getSemanticActionCode :: "string option"

record lexRule =
  getRawMatcher :: string
  getRawHandler :: string

record lexGrammar =
  getRules :: "lexRule list"
  getRulesByStartConditions :: "(string \<times> lexRule list) list"
  getRuleIndex :: "lexRule \<Rightarrow> nat"

datatype error = Error string

text \<open>
  A handler record \<^verbatim>\<open>{args, action}\<close>; \<open>args\<close> is the text the template literal
  \<^verbatim>\<open>${args}\<close> prints.
\<close>

record handler =
  args :: string
  action :: string

text \<open>
  The mutable fields of the generator: the slots written by \<^verbatim>\<open>writeData\<close>, the two
  handler lists and \<^verbatim>\<open>_terminalsMap\<close>, an object used as a dictionary from terminal
  strings to token codes.
\<close>

record generator =
  slots :: "string \<rightharpoonup> string"
  productionHandlers :: "handler list"
  lexHandlers :: "handler list"
  terminalsMap :: "string \<rightharpoonup> nat"

definition writeData :: "string \<Rightarrow> string \<Rightarrow> generator \<Rightarrow> generator" where
  \<comment> \<open>Modelled from the spec: \<^verbatim>\<open>writeData\<close> is defined by the base generator, outside
      this file. "write(slot, text) overwrites slot unconditionally".\<close>
  "writeData slot v g = g\<lparr>slots := (slots g)(slot \<mapsto> v)\<rparr>"

section \<open>Maps in C++ notation\<close>

text \<open>
  A JavaScript object is an association list with distinct keys, in the order
  \<^verbatim>\<open>Object.keys\<close> and \<^verbatim>\<open>for ... in\<close> enumerate them; \<^verbatim>\<open>obj[k] = v\<close>
  is \<^const>\<open>AList.update\<close>, which replaces in place or appends. A value handed to
  \<^verbatim>\<open>_mapValue\<close> is an array of numbers or a scalar, given as its text.
  \<^verbatim>\<open>Number(x)\<close>, as a template literal prints it, is the runtime's conversion and
  stays a parameter \<open>num\<close>.
\<close>

datatype cppValue = Scalar string | Vector "nat list"

definition mapKey :: "(string \<Rightarrow> string) \<Rightarrow> string \<Rightarrow> string \<Rightarrow> error + string" where
  \<comment> \<open>\<^verbatim>\<open>_mapKey(key, keyType)\<close>\<close>
  "mapKey num key keyType =
     (if keyType = ''string'' then Inr ([CHR 0x22] @ key @ [CHR 0x22])
      else if keyType = ''number'' then Inr (num key)
      else if keyType = ''raw'' then Inr key
      else Inl (Error (''_mapKey: Incorrect type '' @ keyType)))"

definition mapValue :: "(string \<Rightarrow> string) \<Rightarrow> cppValue \<Rightarrow> string \<Rightarrow> string" where
  \<comment> \<open>\<^verbatim>\<open>_mapValue(value, valueType)\<close>\<close>
  "mapValue num v valueType =
     (case v of
        Vector xs \<Rightarrow> ''{'' @ join '', '' (map show_nat xs) @ ''}''
      | Scalar x \<Rightarrow>
          if valueType = ''string'' then [CHR 0x22] @ x @ [CHR 0x22]
          else if valueType = ''number'' then num x
          else x)"

fun escapeQuotes :: "string \<Rightarrow> string" where
  \<comment> \<open>\<^verbatim>\<open>k.replace(/"/g, '\\"')\<close>\<close>
  "escapeQuotes [] = []"
| "escapeQuotes (c # cs) = (if c = CHR 0x22 then [CHR 0x5C, CHR 0x22] else [c]) @ escapeQuotes cs"

fun toCppMapEntries ::
  "(string \<Rightarrow> string) \<Rightarrow> (string \<times> cppValue) list \<Rightarrow> string \<Rightarrow> string \<Rightarrow> error + string list" where
  \<comment> \<open>The loop of \<^verbatim>\<open>_toCppMap\<close>: one \<^verbatim>\<open>{key, value}\<close> per property.\<close>
  "toCppMapEntries num [] keyType valueType = Inr []"
| "toCppMapEntries num ((k, v) # kvs) keyType valueType =
     (case mapKey num (escapeQuotes k) keyType of
        Inl e \<Rightarrow> Inl e
      | Inr key \<Rightarrow>
          (case toCppMapEntries num kvs keyType valueType of
             Inl e \<Rightarrow> Inl e
           | Inr result \<Rightarrow> Inr ((''{'' @ key @ '', '' @ mapValue num v valueType @ ''}'') # result)))"

definition toCppMap ::
  "(string \<Rightarrow> string) \<Rightarrow> (string \<times> cppValue) list \<Rightarrow> string \<Rightarrow> string \<Rightarrow> string \<Rightarrow> error + string" where
  \<comment> \<open>\<^verbatim>\<open>_toCppMap(object, typeName, keyType, valueType)\<close>\<close>
  "toCppMap num object typeName keyType valueType =
     (case toCppMapEntries num object keyType valueType of
        Inl e \<Rightarrow> Inl e
      | Inr result \<Rightarrow> Inr (typeName @ '' {'' @ join '', '' result @ ''}''))"

section \<open>The parsing table\<close>

text \<open>
  A table is an object from state numbers to rows; a row is an object from column keys to
  directives. A directive is given as its text (a number as its digits).
\<close>

definition tableEntry :: "string \<Rightarrow> string" where
  \<comment> \<open>What \<^verbatim>\<open>_buildTable\<close> stores in \<^verbatim>\<open>row[key]\<close> in place of \<open>entry\<close>.\<close>
  "tableEntry entry =
     (if take 1 entry = ''s'' then ''{TE::Shift, '' @ drop 1 entry @ ''}''
      else if take 1 entry = ''r'' then ''{TE::Reduce, '' @ drop 1 entry @ ''}''
      else if entry = ''acc'' then ''{TE::Accept, 0}''
      else ''{TE::Transit, '' @ entry @ ''}'')"

definition transformRow :: "(string \<times> string) list \<Rightarrow> (string \<times> string) list" where
  \<comment> \<open>\<^verbatim>\<open>Object.keys(row).forEach(key => { const entry = row[key]; row[key] = ... })\<close>\<close>
  "transformRow row =
     fold (\<lambda>key r. case map_of r key of
                      Some entry \<Rightarrow> AList.update key (tableEntry entry) r
                    | None \<Rightarrow> r)
          (map fst row) row"

fun tableRows ::
  "(string \<Rightarrow> string) \<Rightarrow> (string \<times> (string \<times> string) list) list \<Rightarrow> error + string list" where
  \<comment> \<open>\<^verbatim>\<open>Object.keys(table).map(state => ...)\<close>: one \<^verbatim>\<open>Row {...}\<close> per state.\<close>
  "tableRows num [] = Inr []"
| "tableRows num ((state, row) # table) =
     (case toCppMap num (map (\<lambda>(k, e). (k, Scalar e)) (transformRow row)) ''Row'' ''number'' ''raw'' of
        Inl e \<Rightarrow> Inl e
      | Inr r \<Rightarrow> (case tableRows num table of Inl e \<Rightarrow> Inl e | Inr rs \<Rightarrow> Inr (r # rs)))"

definition buildTable ::
  "(string \<Rightarrow> string) \<Rightarrow> (string \<times> (string \<times> string) list) list \<Rightarrow> generator \<Rightarrow>
   error + string \<times> generator" where
  \<comment> \<open>\<^verbatim>\<open>_buildTable(table)\<close>: the text returned and the generator with \<^verbatim>\<open>ROWS_COUNT\<close>
      written.\<close>
  "buildTable num table g =
     (case tableRows num table of
        Inl e \<Rightarrow> Inl e
      | Inr entries \<Rightarrow>
          Inr (''{'' @ [CHR 0x0A] @ ''    '' @ join ('','' @ [CHR 0x0A] @ ''    '') entries @ [CHR 0x0A] @ ''}'',
               writeData ''ROWS_COUNT'' (show_nat (length entries)) g))"

text \<open>
  The reading of a directive in the words of the specification: the action kind and the
  operand of a directive, the tagged pair that stands for them in the generated text, and
  the directive that stands for them in the raw table.
\<close>

datatype actionKind = Shift | Reduce | Accept | Transit

definition decodeDirective :: "string \<Rightarrow> actionKind \<times> string" where
  "decodeDirective d =
     (case d of
        c # n \<Rightarrow>
          if c = CHR ''s'' then (Shift, n)
          else if c = CHR ''r'' then (Reduce, n)
          else if d = ''acc'' then (Accept, ''0'')
          else (Transit, d)
      | [] \<Rightarrow> (Transit, d))"

fun kindName :: "actionKind \<Rightarrow> string" where
  "kindName Shift = ''Shift''"
| "kindName Reduce = ''Reduce''"
| "kindName Accept = ''Accept''"
| "kindName Transit = ''Transit''"

definition taggedPair :: "actionKind \<times> string \<Rightarrow> string" where
  "taggedPair p = ''{TE::'' @ kindName (fst p) @ '', '' @ snd p @ ''}''"

fun encodeDirective :: "actionKind \<times> string \<Rightarrow> string" where
  "encodeDirective (Shift, n) = CHR ''s'' # n"
| "encodeDirective (Reduce, n) = CHR ''r'' # n"
| "encodeDirective (Accept, n) = ''acc''"
| "encodeDirective (Transit, n) = n"

section \<open>Placeholder rewriting\<close>

text \<open>
  \<^verbatim>\<open>_scopeVars(code)\<close> applies three global replacements in turn:
  \<^verbatim>\<open>/yytext/g\<close>, \<^verbatim>\<open>/\b__\b/g\<close> and
  \<^verbatim>\<open>/return\s+([^;]+?);/g\<close>, the last one with a callback. A global
  replacement scans the text from the left, replaces the leftmost match and goes on
  behind it.
\<close>

fun replace_yytext :: "string \<Rightarrow> string" where
  \<comment> \<open>\<^verbatim>\<open>code.replace(/yytext/g, 'tokenizer.yytext')\<close>\<close>
  "replace_yytext [] = []"
| "replace_yytext (c # cs) =
     (if prefix ''yytext'' (c # cs) then ''tokenizer.yytext'' @ replace_yytext (drop 5 cs)
      else c # replace_yytext cs)"

fun replace_underscores :: "char option \<Rightarrow> string \<Rightarrow> string" where
  \<comment> \<open>\<^verbatim>\<open>code.replace(/\b__\b/g, 'auto __')\<close>; the first argument is the character
      before the current position (\<open>None\<close> at the start of the text).\<close>
  "replace_underscores p [] = []"
| "replace_underscores p (c # cs) =
     (if (case p of None \<Rightarrow> True | Some q \<Rightarrow> \<not> isWord q) \<and> prefix ''__'' (c # cs) \<and>
         (case drop 1 cs of [] \<Rightarrow> True | d # _ \<Rightarrow> \<not> isWord d)
      then ''auto __'' @ replace_underscores (Some (CHR ''_'')) (drop 1 cs)
      else c # replace_underscores (Some c) cs)"

definition matchReturn :: "string \<Rightarrow> (string \<times> string) option" where
  \<comment> \<open>A match of \<^verbatim>\<open>/return\s+([^;]+?);/\<close> at the start of \<open>s\<close>: the captured
      group and the text behind the match. \<^verbatim>\<open>\s+\<close> is greedy and gives back its last
      character only when nothing else is left for the group.\<close>
  "matchReturn s =
     (if prefix ''return'' s then
        (let r = drop 6 s;
             ws = takeWhile isSpace r;
             body = takeWhile (\<lambda>c. c \<noteq> CHR '';'') r;
             rest = dropWhile (\<lambda>c. c \<noteq> CHR '';'') r
         in if rest = [] \<or> ws = [] \<or> length body < 2 then None
            else Some (if length ws < length body then drop (length ws) body else [last body],
                       tl rest))
      else None)"

function replaceTokenRe :: "(string \<Rightarrow> string) \<Rightarrow> string \<Rightarrow> string" where
  \<comment> \<open>\<^verbatim>\<open>code.replace(/return\s+([^;]+?);/g, (_match, token) => f(token))\<close>\<close>
  "replaceTokenRe f [] = []"
| "replaceTokenRe f (c # cs) =
     (case matchReturn (c # cs) of
        Some (token, rest) \<Rightarrow> f token @ replaceTokenRe f rest
      | None \<Rightarrow> c # replaceTokenRe f cs)"
  by pat_completeness auto
termination
proof (relation "measure (\<lambda>(f, s). length s)")
  fix f :: "string \<Rightarrow> string" and c cs x2 token rest
  assume "matchReturn (c # cs) = Some x2" and "(token, rest) = x2"
  then have m: "matchReturn (c # cs) = Some (token, rest)" by simp
  let ?d = "dropWhile (\<lambda>c. c \<noteq> CHR '';'') (drop 6 (c # cs))"
  from m have "rest = tl ?d" and "?d \<noteq> []"
    by (auto simp: matchReturn_def Let_def split: if_splits)
  then have "length rest < length ?d" by (cases ?d) auto
  also have "\<dots> \<le> length (drop 6 (c # cs))" by (rule length_dropWhile_le)
  also have "\<dots> \<le> length (c # cs)" by simp
  finally show "((f, rest), (f, c # cs)) \<in> measure (\<lambda>(f, s). length s)" by simp
qed simp_all

definition isQuote :: "char \<Rightarrow> bool" where
  "isQuote c = (c = CHR 0x27 \<or> c = CHR 0x22)"

definition stripQuotes :: "string \<Rightarrow> string" where
  \<comment> \<open>\<^verbatim>\<open>token.replace(/^['"]|['"]$/g, '')\<close>: one quote character off the front, then
      one off the end of what is left.\<close>
  "stripQuotes t =
     (let t1 = (case t of [] \<Rightarrow> [] | c # cs \<Rightarrow> if isQuote c then cs else c # cs)
      in if t1 \<noteq> [] \<and> isQuote (last t1) then butlast t1 else t1)"

definition returnToken :: "(string \<rightharpoonup> nat) \<Rightarrow> string \<Rightarrow> string" where
  \<comment> \<open>The callback of the third replacement; \<open>tm\<close> is \<^verbatim>\<open>this._terminalsMap\<close>.\<close>
  "returnToken tm tok =
     (let token = stripQuotes tok in
      if token = ''%empty'' \<or> token = ''nullptr'' \<or> token = ''NULL''
      then ''return TokenType::__EMPTY;''
      else (case tm token of
              Some code \<Rightarrow> ''return TokenType::TOKEN_TYPE_'' @ show_nat code @ '';''
            | None \<Rightarrow> ''return TokenType::'' @ token @ '';''))"

definition scopeVars :: "(string \<rightharpoonup> nat) \<Rightarrow> string \<Rightarrow> string" where
  \<comment> \<open>\<^verbatim>\<open>_scopeVars(code)\<close>\<close>
  "scopeVars tm code =
     replaceTokenRe (returnToken tm) (replace_underscores None (replace_yytext code))"

definition endsWithSemicolon :: "string \<Rightarrow> bool" where
  \<comment> \<open>\<^verbatim>\<open>/;\s*$/.test(handler)\<close>: the last character that is not white space is a semicolon.\<close>
  "endsWithSemicolon h = (case dropWhile isSpace (rev h) of [] \<Rightarrow> False | c # _ \<Rightarrow> c = CHR '';'')"

definition actionFromHandler :: "(string \<rightharpoonup> nat) \<Rightarrow> string \<Rightarrow> string" where
  \<comment> \<open>\<^verbatim>\<open>_actionFromHandler(handler)\<close>\<close>
  "actionFromHandler tm handler =
     (let handler' = (if \<not> endsWithSemicolon handler then handler @ '';'' else handler);
          act = trim (scopeVars tm handler')
      in if act = [] then ''return nullptr;'' else act)"

function scanArrives :: "string \<Rightarrow> string \<Rightarrow> bool" where
  \<comment> \<open>The scan of the third replacement over the text \<open>pre @ y\<close>, started at its front,
      comes to stand at the start of \<open>y\<close>: it steps over \<open>pre\<close> character by character
      and match by match, and no match that starts in \<open>pre\<close> runs into \<open>y\<close>.\<close>
  "scanArrives [] y = True"
| "scanArrives (c # cs) y =
     (case matchReturn (c # cs @ y) of
        Some (token, rest) \<Rightarrow>
          length y \<le> length rest \<and> scanArrives (take (length rest - length y) rest) y
      | None \<Rightarrow> scanArrives cs y)"
  by pat_completeness auto
termination
proof (relation "measure (\<lambda>(pre, y). length pre)")
  fix c :: char and cs y :: string and x2 token rest
  assume "matchReturn (c # cs @ y) = Some x2" and "(token, rest) = x2"
  then have m: "matchReturn (c # cs @ y) = Some (token, rest)" by simp
  let ?d = "dropWhile (\<lambda>c. c \<noteq> CHR '';'') (drop 6 (c # cs @ y))"
  from m have "rest = tl ?d" and "?d \<noteq> []"
    by (auto simp: matchReturn_def Let_def split: if_splits)
  then have "length rest < length ?d" by (cases ?d) auto
  also have "\<dots> \<le> length (drop 6 (c # cs @ y))" by (rule length_dropWhile_le)
  also have "\<dots> \<le> length (c # cs @ y)" by simp
  finally have "length rest - length y < length (c # cs)" by simp
  then show "((take (length rest - length y) rest, y), (c # cs, y)) \<in> measure (\<lambda>(pre, y). length pre)"
    by simp
qed simp_all

section \<open>Production handlers\<close>

record paramInfo =
  isUsed :: bool
  isToken :: bool

definition getParamsInfo :: "(symbol \<Rightarrow> bool) \<Rightarrow> production \<Rightarrow> string \<Rightarrow> (string \<times> paramInfo) list" where
  \<comment> \<open>\<^verbatim>\<open>_getParamsInfo(production, action)\<close>; \<open>isTokenSymbol\<close> is
      \<^verbatim>\<open>this._grammar.isTokenSymbol\<close>.\<close>
  "getParamsInfo isTokenSymbol production act =
     (if isEpsilon production then []
      else fold (\<lambda>(index, symbol) info.
                   AList.update (''_'' @ show_nat (index + 1))
                     \<lparr>isUsed = str_includes act (''_'' @ show_nat (index + 1)),
                      isToken = isTokenSymbol symbol\<rparr> info)
                (enumerate 0 (getRHS production)) [])"

definition generateHandlerPrologue :: "production \<Rightarrow> string \<Rightarrow> (string \<times> paramInfo) list \<Rightarrow> string" where
  \<comment> \<open>\<^verbatim>\<open>_generateHandlerPrologue(production, action, argsInfo)\<close>: the keys of
      \<^verbatim>\<open>argsInfo\<close> reversed, one statement pushed for each.\<close>
  "generateHandlerPrologue production act argsInfo =
     (let argsPrologue =
            map (\<lambda>(name, info).
                   if isToken info \<or> derivesPropagatingToken production
                   then (if isUsed info then ''auto '' @ name @ '' = POP_T();''
                         else ''parser.tokensStack.pop_back();'')
                   else (if isUsed info then ''auto '' @ name @ '' = POP_V();''
                         else ''parser.valuesStack.pop_back();''))
                (rev argsInfo)
      in ''// Semantic action prologue.'' @ [CHR 0x0A] @
         join [CHR 0x0A] argsPrologue @ [CHR 0x0A, CHR 0x0A] @
         act)"

definition generateHandlerEpilogue :: "production \<Rightarrow> string \<Rightarrow> string" where
  \<comment> \<open>\<^verbatim>\<open>_generateHandlerEpilogue(production, action)\<close>\<close>
  "generateHandlerEpilogue production act =
     (let pushResult = (if derivesPropagatingToken production then ''PUSH_TR'' else ''PUSH_VR'')
      in act @ [CHR 0x0A, CHR 0x0A] @ '' // Semantic action epilogue.'' @ [CHR 0x0A] @
         pushResult @ ''();'' @ [CHR 0x0A])"

definition buildSemanticAction ::
  "(symbol \<Rightarrow> bool) \<Rightarrow> production \<Rightarrow> generator \<Rightarrow> string option \<times> generator" where
  \<comment> \<open>\<^verbatim>\<open>buildSemanticAction(production)\<close>: the reference returned (\<open>None\<close> for
      \<^verbatim>\<open>null\<close>) and the generator with the handler pushed. An action that is
      \<^verbatim>\<open>null\<close> or the empty string is falsy.\<close>
  "buildSemanticAction isTokenSymbol production g =
     (case getSemanticActionCode production of
        None \<Rightarrow> (None, g)
      | Some raw \<Rightarrow>
          if raw = [] then (None, g)
          else
            (let act = actionFromHandler (terminalsMap g) raw;
                 argsInfo = getParamsInfo isTokenSymbol production act;
                 act1 = generateHandlerPrologue production act argsInfo;
                 act2 = generateHandlerEpilogue production act1;
                 g' = g\<lparr>productionHandlers :=
                          productionHandlers g @ [\<lparr>args = ''yyparse& parser'', action = act2\<rparr>]\<rparr>
             in (Some ([CHR 0x22] @ ''_handler'' @ show_nat (length (productionHandlers g')) @ [CHR 0x22]),
                 g')))"

text \<open>
  The reading of a handler body in the words of the specification: a pop takes a slot
  from one of the two stacks and binds it to a variable or discards it; the result is
  pushed on one of the two stacks.
\<close>

datatype stack = TokensStack | ValuesStack

datatype stackPop = Pop stack "string option"

fun popText :: "stackPop \<Rightarrow> string" where
  "popText (Pop TokensStack (Some name)) = ''auto '' @ name @ '' = POP_T();''"
| "popText (Pop TokensStack None) = ''parser.tokensStack.pop_back();''"
| "popText (Pop ValuesStack (Some name)) = ''auto '' @ name @ '' = POP_V();''"
| "popText (Pop ValuesStack None) = ''parser.valuesStack.pop_back();''"

fun pushText :: "stack \<Rightarrow> string" where
  "pushText TokensStack = ''PUSH_TR();''"
| "pushText ValuesStack = ''PUSH_VR();''"

definition positionPop :: "(symbol \<Rightarrow> bool) \<Rightarrow> production \<Rightarrow> bool \<Rightarrow> nat \<Rightarrow> stackPop" where
  \<comment> \<open>The pop of the right-hand position \<open>i\<close> (from 1); \<open>bound\<close> says whether the slot is
      bound to the variable \<^verbatim>\<open>_i\<close>.\<close>
  "positionPop isTokenSymbol production bound i =
     Pop (if isTokenSymbol (getRHS production ! (i - 1)) \<or> derivesPropagatingToken production
          then TokensStack else ValuesStack)
         (if bound then Some (''_'' @ show_nat i) else None)"

definition referencesPlaceholder :: "string \<Rightarrow> nat \<Rightarrow> bool" where
  \<comment> \<open>"The action text references the placeholder \<^verbatim>\<open>_i\<close>": the placeholder stands in
      it as a whole word. So \<^verbatim>\<open>_10\<close> and \<^verbatim>\<open>tmp_1\<close> are no references to
      \<^verbatim>\<open>_1\<close>.\<close>
  "referencesPlaceholder act i = occursAsWord None (''_'' @ show_nat i) act"

section \<open>The productions array and the handler declarations\<close>





section \<open>The module include\<close>

text \<open>
  \<^verbatim>\<open>generateModuleInclude\<close> tests the module include against
  \<^verbatim>\<open>/\b(?:using|class|struct)\s+Value\b|\btypedef\s+\w+\s+Value/\<close>. Both branches
  start with a letter, so the word boundary in front of them holds when the character
  before is not a word character.
\<close>

definition valueAfter :: "string \<Rightarrow> string \<Rightarrow> bool" where
  \<comment> \<open>At the start of \<open>s\<close>: the keyword \<open>kw\<close>, \<^verbatim>\<open>\s+\<close>, \<^verbatim>\<open>Value\<close>, \<^verbatim>\<open>\b\<close>.\<close>
  "valueAfter kw s =
     (prefix kw s \<and>
      (let r = drop (length kw) s; r' = dropWhile isSpace r
       in r' \<noteq> r \<and> prefix ''Value'' r' \<and> (case drop 5 r' of [] \<Rightarrow> True | c # _ \<Rightarrow> \<not> isWord c)))"

definition typedefValue :: "string \<Rightarrow> bool" where
  \<comment> \<open>At the start of \<open>s\<close>: \<^verbatim>\<open>typedef\s+\w+\s+Value\<close>.\<close>
  "typedefValue s =
     (prefix ''typedef'' s \<and>
      (let r = drop 7 s; r1 = dropWhile isSpace r; r2 = dropWhile isWord r1; r3 = dropWhile isSpace r2
       in r1 \<noteq> r \<and> r2 \<noteq> r1 \<and> r3 \<noteq> r2 \<and> prefix ''Value'' r3))"

fun hasValueTypeFrom :: "char option \<Rightarrow> string \<Rightarrow> bool" where
  \<comment> \<open>The search for a match, position by position; the first argument is the character
      before the current position.\<close>
  "hasValueTypeFrom p [] = False"
| "hasValueTypeFrom p (c # cs) =
     (((case p of None \<Rightarrow> True | Some q \<Rightarrow> \<not> isWord q) \<and>
       (valueAfter ''using'' (c # cs) \<or> valueAfter ''class'' (c # cs) \<or>
        valueAfter ''struct'' (c # cs) \<or> typedefValue (c # cs)))
      \<or> hasValueTypeFrom (Some c) cs)"

definition hasValueType :: "string \<Rightarrow> bool" where
  "hasValueType moduleInclude = hasValueTypeFrom None moduleInclude"

text \<open>
  The texts in which the regular expression finds a match, described without a scan:
  somewhere in the text stands one of the keywords \<^verbatim>\<open>using\<close>, \<^verbatim>\<open>class\<close>,
  \<^verbatim>\<open>struct\<close>, white space and \<^verbatim>\<open>Value\<close>, as whole words; or
  \<^verbatim>\<open>typedef\<close> as the start of a word, white space, one word, white space and the
  letters \<^verbatim>\<open>Value\<close>, whatever follows them.
\<close>

definition matchesValuePattern :: "string \<Rightarrow> bool" where
  "matchesValuePattern m \<longleftrightarrow>
     (\<exists>pre kw ws post.
         m = pre @ kw @ ws @ ''Value'' @ post \<and> kw \<in> {''using'', ''class'', ''struct''} \<and>
         (pre = [] \<or> \<not> isWord (last pre)) \<and> ws \<noteq> [] \<and> list_all isSpace ws \<and>
         (post = [] \<or> \<not> isWord (hd post)))
     \<or> (\<exists>pre ws1 w ws2 post.
         m = pre @ ''typedef'' @ ws1 @ w @ ws2 @ ''Value'' @ post \<and>
         (pre = [] \<or> \<not> isWord (last pre)) \<and> ws1 \<noteq> [] \<and> list_all isSpace ws1 \<and>
         w \<noteq> [] \<and> list_all isWord w \<and> ws2 \<noteq> [] \<and> list_all isSpace ws2)"

text \<open>
  The reading of "the module include declares the result-value type \<^verbatim>\<open>Value\<close>" in the
  words of the specification, on the tokens of the text: words and single punctuation
  characters, with white space and both kinds of C++ comment left out (a string literal is
  read as code). The type is declared by \<^verbatim>\<open>using Value =\<close>, by \<^verbatim>\<open>class\<close>,
  \<^verbatim>\<open>struct\<close>, \<^verbatim>\<open>union\<close> or \<^verbatim>\<open>enum\<close> before \<^verbatim>\<open>Value\<close>, or by a
  \<^verbatim>\<open>typedef\<close> whose last token before the semicolon is \<^verbatim>\<open>Value\<close>.
\<close>

datatype lexState = InCode | InLineComment | InBlockComment

fun cppTokens :: "lexState \<Rightarrow> string \<Rightarrow> string \<Rightarrow> string list" where
  \<comment> \<open>The second argument is the word read so far.\<close>
  "cppTokens st w [] = (if w = [] then [] else [w])"
| "cppTokens InCode w (c # cs) =
     (if prefix ''//'' (c # cs) then (if w = [] then [] else [w]) @ cppTokens InLineComment [] (drop 1 cs)
      else if prefix ''/*'' (c # cs) then (if w = [] then [] else [w]) @ cppTokens InBlockComment [] (drop 1 cs)
      else if isWord c then cppTokens InCode (w @ [c]) cs
      else (if w = [] then [] else [w]) @ (if isSpace c then [] else [[c]]) @ cppTokens InCode [] cs)"
| "cppTokens InLineComment w (c # cs) =
     cppTokens (if c = CHR 0x0A then InCode else InLineComment) [] cs"
| "cppTokens InBlockComment w (c # cs) =
     (if prefix ''*/'' (c # cs) then cppTokens InCode [] (drop 1 cs)
      else cppTokens InBlockComment [] cs)"

fun tokensInclude :: "string list \<Rightarrow> string list \<Rightarrow> bool" where
  "tokensInclude [] p = (p = [])"
| "tokensInclude (t # ts) p = (prefix p (t # ts) \<or> tokensInclude ts p)"

fun typedefDeclares :: "bool \<Rightarrow> string \<Rightarrow> string list \<Rightarrow> bool" where
  \<comment> \<open>The first argument says whether the current token stands in a \<^verbatim>\<open>typedef\<close>.\<close>
  "typedefDeclares inside name [] = False"
| "typedefDeclares inside name (t # ts) =
     (if t = ''typedef'' then typedefDeclares True name ts
      else if t = '';'' then typedefDeclares False name ts
      else (inside \<and> t = name \<and> take 1 ts = ['';'']) \<or> typedefDeclares inside name ts)"

definition declaresValue :: "string \<Rightarrow> bool" where
  "declaresValue m =
     (let ts = cppTokens InCode [] m in
      tokensInclude ts [''using'', ''Value'', ''=''] \<or>
      tokensInclude ts [''class'', ''Value''] \<or> tokensInclude ts [''struct'', ''Value''] \<or>
      tokensInclude ts [''union'', ''Value''] \<or> tokensInclude ts [''enum'', ''Value''] \<or>
      typedefDeclares False ''Value'' ts)"

definition missingValueMessage :: "(string \<Rightarrow> string) \<Rightarrow> string" where
  \<comment> \<open>The message of the error; \<open>bold\<close> is \<^verbatim>\<open>colors.bold\<close>.\<close>
  "missingValueMessage bold =
     [CHR 0x0A] @ ''C++ plugin should provide module include and define at least '' @
     ''the '' @ bold ''Value'' @ '' type. Example:'' @ [CHR 0x0A, CHR 0x0A] @
     bold (''using Value = <...>;'' @ [CHR 0x0A])"

definition generateModuleInclude ::
  "(string \<Rightarrow> string) \<Rightarrow> string \<Rightarrow> generator \<Rightarrow> error option \<times> generator" where
  \<comment> \<open>\<open>moduleInclude\<close> is what \<^verbatim>\<open>this._grammar.getModuleInclude()\<close> returns. The result
      is the error thrown, if any, and the generator as the call leaves it.\<close>
  "generateModuleInclude bold moduleInclude g =
     (if \<not> hasValueType moduleInclude then (Some (Error (missingValueMessage bold)), g)
      else
        (let onParseBegin = (if str_includes moduleInclude ''void onParseBegin''
                             then ''onParseBegin(str);'' else []);
             onParseEnd = (if str_includes moduleInclude ''void onParseEnd''
                           then ''onParseEnd(result);'' else []);
             g1 = writeData ''ON_PARSE_BEGIN_CALL'' onParseBegin g;
             g2 = writeData ''ON_PARSE_END_CALL'' onParseEnd g1
         in (None, writeData ''MODULE_INCLUDE'' moduleInclude g2)))"

section \<open>Lexical rules\<close>

definition lexHandlerSource :: "string \<Rightarrow> string" where
  \<comment> \<open>\<^verbatim>\<open>generateLexRules\<close>: the raw handler, with \<^verbatim>\<open>return\<close> in front when it
      includes none.\<close>
  "lexHandlerSource handler =
     (if \<not> str_includes handler ''return'' then ''return '' @ handler else handler)"

definition hasExplicitReturn :: "string \<Rightarrow> bool" where
  \<comment> \<open>"The body has an explicit return": the keyword \<^verbatim>\<open>return\<close> stands in it as a
      whole word. So the identifier \<^verbatim>\<open>returnValue\<close> is no return.\<close>
  "hasExplicitReturn handler = occursAsWord None ''return'' handler"

definition lexRuleEntry :: "lexRule \<Rightarrow> generator \<Rightarrow> string \<times> generator" where
  \<comment> \<open>The callback of \<^verbatim>\<open>getRules().map\<close> in \<^verbatim>\<open>generateLexRules\<close>.\<close>
  "lexRuleEntry lexRule g =
     (let handler = lexHandlerSource (getRawHandler lexRule);
          act = actionFromHandler (terminalsMap g) handler;
          g' = g\<lparr>lexHandlers := lexHandlers g @
                 [\<lparr>args = ''const Tokenizer& tokenizer, const std::string& yytext'', action = act\<rparr>]\<rparr>
      in (''{std::regex(R'' @ [CHR 0x22] @ ''('' @ getRawMatcher lexRule @ '')'' @ [CHR 0x22] @ ''), '' @
          ''&_lexRule'' @ show_nat (length (lexHandlers g')) @ ''}'', g'))"

fun lexRuleEntries :: "lexRule list \<Rightarrow> generator \<Rightarrow> string list \<times> generator" where
  "lexRuleEntries [] g = ([], g)"
| "lexRuleEntries (r # rs) g =
     (let (e, g1) = lexRuleEntry r g; (es, g2) = lexRuleEntries rs g1 in (e # es, g2))"

definition generateLexRules :: "lexGrammar \<Rightarrow> generator \<Rightarrow> generator" where
  "generateLexRules lg g =
     (let (lexRules, g1) = lexRuleEntries (getRules lg) g;
          g2 = writeData ''LEX_RULES_COUNT'' (show_nat (length lexRules)) g1
      in writeData ''LEX_RULES''
           (''{{'' @ [CHR 0x0A] @ ''  '' @ join ('','' @ [CHR 0x0A] @ ''  '') lexRules @ [CHR 0x0A] @ ''}}'') g2)"

definition lexRulesByConditions :: "lexGrammar \<Rightarrow> (string \<times> cppValue) list" where
  \<comment> \<open>The \<^verbatim>\<open>for ... in\<close> loop of \<^verbatim>\<open>generateLexRulesByStartConditions\<close>, which
      fills \<^verbatim>\<open>result\<close>.\<close>
  "lexRulesByConditions lg =
     fold (\<lambda>(condition, rs) result.
             AList.update (''TokenizerState::'' @ condition) (Vector (map (getRuleIndex lg) rs)) result)
          (getRulesByStartConditions lg) []"

definition generateLexRulesByStartConditions ::
  "(string \<Rightarrow> string) \<Rightarrow> lexGrammar \<Rightarrow> generator \<Rightarrow> error + generator" where
  "generateLexRulesByStartConditions num lg g =
     (let tokenizerStates = map fst (getRulesByStartConditions lg);
          g1 = writeData ''TOKENIZER_STATES'' (join ('','' @ [CHR 0x0A] @ ''  '') tokenizerStates) g
      in case toCppMap num (lexRulesByConditions lg) [] ''raw'' ''string'' of
           Inl e \<Rightarrow> Inl e
         | Inr m \<Rightarrow> Inr (writeData ''LEX_RULES_BY_START_CONDITIONS'' m g1))"

section \<open>Token types\<close>

text \<open>
  \<^verbatim>\<open>_tokens\<close> is the object from terminals to token codes, an association list in
  the order of \<^verbatim>\<open>Object.keys\<close>; \<open>tokensMap\<close> holds the keys of
  \<^verbatim>\<open>this._grammar._tokensMap\<close>, the tokens the grammar declares by name.
\<close>

definition tokenType :: "string set \<Rightarrow> string \<times> nat \<Rightarrow> generator \<Rightarrow> string \<times> generator" where
  \<comment> \<open>The callback of \<^verbatim>\<open>Object.keys(this._tokens).map\<close> in \<^verbatim>\<open>generateTokenTypes\<close>.\<close>
  "tokenType tokensMap entry g =
     (let token = fst entry; index = snd entry in
      if token \<in> tokensMap then (token @ '' = '' @ show_nat index, g)
      else
        (let g' = g\<lparr>terminalsMap := (terminalsMap g)(token \<mapsto> index)\<rparr> in
         if token = ''$'' then (''__EOF = '' @ show_nat index, g')
         else (''TOKEN_TYPE_'' @ show_nat index @ '' = '' @ show_nat index, g')))"

fun tokenTypeEntries :: "string set \<Rightarrow> (string \<times> nat) list \<Rightarrow> generator \<Rightarrow> string list \<times> generator" where
  "tokenTypeEntries tokensMap [] g = ([], g)"
| "tokenTypeEntries tokensMap (t # ts) g =
     (let (e, g1) = tokenType tokensMap t g; (es, g2) = tokenTypeEntries tokensMap ts g1
      in (e # es, g2))"

definition generateTokenTypes :: "string set \<Rightarrow> (string \<times> nat) list \<Rightarrow> generator \<Rightarrow> generator" where
  "generateTokenTypes tokensMap tokens g =
     (let (tokenTypes, g1) = tokenTypeEntries tokensMap tokens g
      in writeData ''TOKEN_TYPES'' (join ('','' @ [CHR 0x0A] @ ''  '') tokenTypes) g1)"

chapter \<open>Properties\<close>

section \<open>Decimal numbers and objects\<close>

lemma digit_char_code: "d < 10 \<Longrightarrow> (of_char (digit_char d) :: nat) = 48 + d"
proof -
  assume "d < 10"
  then have "d \<in> {0, 1, 2, 3, 4, 5, 6, 7, 8, 9}" by auto
  then show ?thesis by (auto simp: digit_char_def)
qed

lemma digit_char_inj:
  assumes "d < 10" and "e < 10" and "digit_char d = digit_char e"
  shows "d = e"
proof -
  have "48 + d = (of_char (digit_char d) :: nat)" by (simp only: digit_char_code [OF assms(1)])
  also have "\<dots> = of_char (digit_char e)" by (simp only: assms(3))
  also have "\<dots> = 48 + e" by (simp only: digit_char_code [OF assms(2)])
  finally show ?thesis by simp
qed

lemma show_nat_small: "n < 10 \<Longrightarrow> show_nat n = [digit_char n]"
  by (simp add: show_nat.simps)

lemma show_nat_large: "\<not> n < 10 \<Longrightarrow> show_nat n = show_nat (n div 10) @ [digit_char (n mod 10)]"
  by (subst show_nat.simps) simp

lemma show_nat_nonempty: "show_nat n \<noteq> []"
  by (cases "n < 10") (simp_all add: show_nat_small show_nat_large)

lemma show_nat_length: "length (show_nat n) = Suc 0 \<longleftrightarrow> n < 10"
  using show_nat_nonempty [of "n div 10"]
  by (cases "n < 10") (simp_all add: show_nat_small show_nat_large)

lemma show_nat_inj: "show_nat n = show_nat m \<Longrightarrow> n = m"
proof (induction n arbitrary: m rule: show_nat.induct)
  case (1 n)
  show ?case
  proof (cases "n < 10")
    case True
    have "length (show_nat m) = length (show_nat n)" by (simp only: "1.prems")
    also have "\<dots> = Suc 0" using True by (simp add: show_nat_small)
    finally have "length (show_nat m) = Suc 0" .
    then have m: "m < 10" by (simp add: show_nat_length)
    with True "1.prems" show ?thesis by (simp add: show_nat_small digit_char_inj)
  next
    case False
    then have "length (show_nat n) \<noteq> Suc 0" by (simp add: show_nat_length)
    with "1.prems" have m: "\<not> m < 10" by (simp add: show_nat_length)
    from "1.prems" have "show_nat (n div 10) @ [digit_char (n mod 10)] =
        show_nat (m div 10) @ [digit_char (m mod 10)]"
      by (simp add: show_nat_large [OF False, symmetric] show_nat_large [OF m, symmetric])
    then have a: "show_nat (n div 10) = show_nat (m div 10)"
      and b: "digit_char (n mod 10) = digit_char (m mod 10)" by simp_all
    from "1.IH" [OF False a] have "n div 10 = m div 10" .
    moreover from b have "n mod 10 = m mod 10" by (intro digit_char_inj) simp_all
    ultimately show ?thesis by (metis div_mult_mod_eq)
  qed
qed

lemma update_fresh: "k \<notin> fst ` set xs \<Longrightarrow> AList.update k v xs = xs @ [(k, v)]"
  by (induction xs) auto

lemma update_append_fresh:
  "k \<notin> fst ` set xs \<Longrightarrow> AList.update k v (xs @ ys) = xs @ AList.update k v ys"
  by (induction xs) auto

lemma fold_update_distinct:
  assumes "inj f" and "distinct (map fst kvs)" and "fst ` set acc \<inter> f ` fst ` set kvs = {}"
  shows "fold (\<lambda>(k, v) res. AList.update (f k) (h k v) res) kvs acc =
           acc @ map (\<lambda>(k, v). (f k, h k v)) kvs"
  using assms(2,3)
proof (induction kvs arbitrary: acc)
  case Nil
  then show ?case by simp
next
  case (Cons kv kvs)
  obtain k v where kv: "kv = (k, v)" by (cases kv)
  from Cons.prems have fresh: "f k \<notin> fst ` set acc" by (auto simp: kv)
  have "fst ` set (acc @ [(f k, h k v)]) \<inter> f ` fst ` set kvs = {}"
    using Cons.prems assms(1) by (auto simp: kv inj_eq image_iff)
  with Cons.IH [of "acc @ [(f k, h k v)]"] Cons.prems show ?case
    by (simp add: kv update_fresh [OF fresh])
qed

section \<open>Production handlers\<close>

lemma placeholder_inj: "inj (\<lambda>index. ''_'' @ show_nat (index + 1))"
  by (auto simp: inj_def dest: show_nat_inj)

lemma getParamsInfo_map:
  assumes "\<not> isEpsilon P"
  shows "getParamsInfo isTokenSymbol P act =
           map (\<lambda>(index, symbol).
                  (''_'' @ show_nat (index + 1),
                   \<lparr>isUsed = str_includes act (''_'' @ show_nat (index + 1)),
                    isToken = isTokenSymbol symbol\<rparr>))
               (enumerate 0 (getRHS P))"
proof -
  have "fold (\<lambda>(index, symbol) info.
                AList.update (''_'' @ show_nat (index + 1))
                  \<lparr>isUsed = str_includes act (''_'' @ show_nat (index + 1)),
                   isToken = isTokenSymbol symbol\<rparr> info)
             (enumerate 0 (getRHS P)) [] =
        [] @ map (\<lambda>(index, symbol).
                  (''_'' @ show_nat (index + 1),
                   \<lparr>isUsed = str_includes act (''_'' @ show_nat (index + 1)),
                    isToken = isTokenSymbol symbol\<rparr>))
               (enumerate 0 (getRHS P))"
    by (rule fold_update_distinct [OF placeholder_inj]) simp_all
  with assms show ?thesis by (simp add: getParamsInfo_def)
qed

lemma prologue_pops:
  "map (\<lambda>(name, info).
          if isToken info \<or> derivesPropagatingToken P
          then (if isUsed info then ''auto '' @ name @ '' = POP_T();''
                else ''parser.tokensStack.pop_back();'')
          else (if isUsed info then ''auto '' @ name @ '' = POP_V();''
                else ''parser.valuesStack.pop_back();''))
       (map (\<lambda>(index, symbol).
               (''_'' @ show_nat (index + 1),
                \<lparr>isUsed = str_includes act (''_'' @ show_nat (index + 1)),
                 isToken = isTokenSymbol symbol\<rparr>))
            (enumerate 0 (getRHS P))) =
   map (\<lambda>i. popText (positionPop isTokenSymbol P (str_includes act (''_'' @ show_nat i)) i))
       [1..<Suc (length (getRHS P))]"
proof (rule nth_equalityI)
  show "length (map (\<lambda>(name, info).
          if isToken info \<or> derivesPropagatingToken P
          then (if isUsed info then ''auto '' @ name @ '' = POP_T();''
                else ''parser.tokensStack.pop_back();'')
          else (if isUsed info then ''auto '' @ name @ '' = POP_V();''
                else ''parser.valuesStack.pop_back();''))
       (map (\<lambda>(index, symbol).
               (''_'' @ show_nat (index + 1),
                \<lparr>isUsed = str_includes act (''_'' @ show_nat (index + 1)),
                 isToken = isTokenSymbol symbol\<rparr>))
            (enumerate 0 (getRHS P)))) =
     length (map (\<lambda>i. popText (positionPop isTokenSymbol P (str_includes act (''_'' @ show_nat i)) i))
       [1..<Suc (length (getRHS P))])"
    by (simp del: upt_Suc)
next
  fix j
  assume "j < length (map (\<lambda>(name, info).
          if isToken info \<or> derivesPropagatingToken P
          then (if isUsed info then ''auto '' @ name @ '' = POP_T();''
                else ''parser.tokensStack.pop_back();'')
          else (if isUsed info then ''auto '' @ name @ '' = POP_V();''
                else ''parser.valuesStack.pop_back();''))
       (map (\<lambda>(index, symbol).
               (''_'' @ show_nat (index + 1),
                \<lparr>isUsed = str_includes act (''_'' @ show_nat (index + 1)),
                 isToken = isTokenSymbol symbol\<rparr>))
            (enumerate 0 (getRHS P))))"
  then have j: "j < length (getRHS P)" by simp
  then have n: "[1..<Suc (length (getRHS P))] ! j = Suc j"
    by (metis Suc_less_eq nth_upt plus_1_eq_Suc)
  show "map (\<lambda>(name, info).
          if isToken info \<or> derivesPropagatingToken P
          then (if isUsed info then ''auto '' @ name @ '' = POP_T();''
                else ''parser.tokensStack.pop_back();'')
          else (if isUsed info then ''auto '' @ name @ '' = POP_V();''
                else ''parser.valuesStack.pop_back();''))
       (map (\<lambda>(index, symbol).
               (''_'' @ show_nat (index + 1),
                \<lparr>isUsed = str_includes act (''_'' @ show_nat (index + 1)),
                 isToken = isTokenSymbol symbol\<rparr>))
            (enumerate 0 (getRHS P))) ! j =
     map (\<lambda>i. popText (positionPop isTokenSymbol P (str_includes act (''_'' @ show_nat i)) i))
       [1..<Suc (length (getRHS P))] ! j"
    using j by (simp add: n nth_enumerate_eq positionPop_def del: upt_Suc)
qed

lemma occursAsWord_includes: "occursAsWord p w s \<Longrightarrow> str_includes s w"
  by (induction p w s rule: occursAsWord.induct) auto

text \<open>
  Claim C1, as amended. Let a production have a semantic action and \<open>K\<close> right-hand
  symbols: the symbols of \<^verbatim>\<open>getRHS()\<close>, and none when the production is epsilon. The
  handler that \<^verbatim>\<open>buildSemanticAction\<close> records for it consists of the prologue line,
  \<open>K\<close> pops for the positions \<open>K\<close> down to 1, the rewritten action, the epilogue line and
  one push. The pop of a position takes from the tokens stack if the symbol there is a token
  or the production propagates a token, else from the values stack. It binds \<^verbatim>\<open>_i\<close>
  exactly if the rewritten action text includes the characters \<^verbatim>\<open>_i\<close> somewhere, else
  it discards the slot: every placeholder the action references is bound, and so is
  \<^verbatim>\<open>_1\<close> when the action only mentions \<^verbatim>\<open>_10\<close>. The push goes to the tokens
  stack if the production propagates a token, else to the values stack. Where an epsilon
  production is one whose \<^verbatim>\<open>getRHS()\<close> is empty, \<open>K\<close> is the length of
  \<^verbatim>\<open>getRHS()\<close> for every production.
\<close>

theorem handler_body_pops_and_push:
  assumes "getSemanticActionCode P = Some raw" and "raw \<noteq> []"
    and "act = actionFromHandler (terminalsMap g) raw"
    and "K = (if isEpsilon P then 0 else length (getRHS P))"
  shows "productionHandlers (snd (buildSemanticAction isTokenSymbol P g)) =
           productionHandlers g @
           [\<lparr>args = ''yyparse& parser'',
             action =
               ''// Semantic action prologue.'' @ [CHR 0x0A] @
               join [CHR 0x0A]
                 (map (\<lambda>i. popText (positionPop isTokenSymbol P (str_includes act (''_'' @ show_nat i)) i))
                    (rev [1..<Suc K])) @
               [CHR 0x0A, CHR 0x0A] @
               act @
               [CHR 0x0A, CHR 0x0A] @ '' // Semantic action epilogue.'' @ [CHR 0x0A] @
               pushText (if derivesPropagatingToken P then TokensStack else ValuesStack) @ [CHR 0x0A]\<rparr>]
         \<and> length (map (\<lambda>i. popText (positionPop isTokenSymbol P (str_includes act (''_'' @ show_nat i)) i))
                      (rev [1..<Suc K])) = K
         \<and> (\<forall>j < K. rev [1..<Suc K] ! j = K - j)
         \<and> ((isEpsilon P \<longrightarrow> getRHS P = []) \<longrightarrow> K = length (getRHS P))
         \<and> (\<forall>i. referencesPlaceholder act i \<longrightarrow> str_includes act (''_'' @ show_nat i))"
proof -
  have nth: "\<forall>j < K. rev [1..<Suc K] ! j = K - j"
    by (auto simp: rev_nth simp del: upt_Suc)
  have len: "(isEpsilon P \<longrightarrow> getRHS P = []) \<longrightarrow> K = length (getRHS P)"
    by (simp add: assms(4))
  have refs: "\<forall>i. referencesPlaceholder act i \<longrightarrow> str_includes act (''_'' @ show_nat i)"
    unfolding referencesPlaceholder_def by (intro allI impI occursAsWord_includes)
  let ?stmt = "\<lambda>(name, info).
          if isToken info \<or> derivesPropagatingToken P
          then (if isUsed info then ''auto '' @ name @ '' = POP_T();''
                else ''parser.tokensStack.pop_back();'')
          else (if isUsed info then ''auto '' @ name @ '' = POP_V();''
                else ''parser.valuesStack.pop_back();'')"
  let ?pop = "\<lambda>i. popText (positionPop isTokenSymbol P (str_includes act (''_'' @ show_nat i)) i)"
  have pops: "map ?stmt (rev (getParamsInfo isTokenSymbol P act)) = map ?pop (rev [1..<Suc K])"
  proof (cases "isEpsilon P")
    case True
    then show ?thesis by (simp add: getParamsInfo_def assms(4))
  next
    case False
    have "map ?stmt (rev (getParamsInfo isTokenSymbol P act)) =
        rev (map ?stmt (getParamsInfo isTokenSymbol P act))"
      by (simp only: rev_map)
    also have "\<dots> = rev (map ?pop [1..<Suc (length (getRHS P))])"
      by (simp only: getParamsInfo_map [OF False] prologue_pops)
    also have "\<dots> = map ?pop (rev [1..<Suc K])"
      using False by (simp only: rev_map assms(4) if_False)
    finally show ?thesis .
  qed
  have pro: "generateHandlerPrologue P act (getParamsInfo isTokenSymbol P act) =
      ''// Semantic action prologue.'' @ [CHR 0x0A] @
      join [CHR 0x0A] (map ?pop (rev [1..<Suc K])) @
      [CHR 0x0A, CHR 0x0A] @ act"
    by (simp only: generateHandlerPrologue_def Let_def pops)
  have epi: "generateHandlerEpilogue P x =
      x @ [CHR 0x0A, CHR 0x0A] @ '' // Semantic action epilogue.'' @ [CHR 0x0A] @
      pushText (if derivesPropagatingToken P then TokensStack else ValuesStack) @ [CHR 0x0A]" for x
    by (simp add: generateHandlerEpilogue_def)
  have "productionHandlers (snd (buildSemanticAction isTokenSymbol P g)) =
      productionHandlers g @
      [\<lparr>args = ''yyparse& parser'',
        action = generateHandlerEpilogue P
                   (generateHandlerPrologue P act (getParamsInfo isTokenSymbol P act))\<rparr>]"
    using assms(1,2) by (simp add: buildSemanticAction_def Let_def assms(3))
  then show ?thesis
    unfolding pro epi using nth len refs by (simp del: upt_Suc)
qed

theorem handler_body_pops_and_push_witness:
  "(let P = \<lparr>getRHS = [''E'', ''+'', ''E''], isEpsilon = False, derivesPropagatingToken = False,
              getSemanticActionCode = Some ''$$ = _1 + _3''\<rparr>;
        g = \<lparr>slots = Map.empty, productionHandlers = [], lexHandlers = [], terminalsMap = Map.empty\<rparr>
    in getSemanticActionCode P = Some ''$$ = _1 + _3''
       \<and> actionFromHandler (terminalsMap g) ''$$ = _1 + _3'' = ''$$ = _1 + _3;''
       \<and> (if isEpsilon P then 0 else length (getRHS P)) = 3
       \<and> referencesPlaceholder ''$$ = _1 + _3;'' 3
       \<and> str_includes ''$$ = _1 + _3;'' ''_3''
       \<and> map action (productionHandlers (snd (buildSemanticAction (\<lambda>s. s = ''+'') P g))) =
           [''// Semantic action prologue.'' @ [CHR 0x0A] @
            ''auto _3 = POP_V();'' @ [CHR 0x0A] @
            ''parser.tokensStack.pop_back();'' @ [CHR 0x0A] @
            ''auto _1 = POP_V();'' @ [CHR 0x0A, CHR 0x0A] @
            ''$$ = _1 + _3;'' @ [CHR 0x0A, CHR 0x0A] @
            '' // Semantic action epilogue.'' @ [CHR 0x0A] @
            ''PUSH_VR();'' @ [CHR 0x0A]])"
proof -
  define P where "P = \<lparr>getRHS = [''E'', ''+'', ''E''], isEpsilon = False, derivesPropagatingToken = False,
              getSemanticActionCode = Some ''$$ = _1 + _3''\<rparr>"
  define g where "g = \<lparr>slots = (Map.empty :: string \<rightharpoonup> string), productionHandlers = [],
                       lexHandlers = [], terminalsMap = (Map.empty :: string \<rightharpoonup> nat)\<rparr>"
  have a: "getSemanticActionCode P = Some ''$$ = _1 + _3''" by (simp add: P_def)
  have b: "''$$ = _1 + _3'' \<noteq> []" by simp
  have d: "''$$ = _1 + _3;'' = actionFromHandler (terminalsMap g) ''$$ = _1 + _3''"
    by (simp add: g_def actionFromHandler_def endsWithSemicolon_def isSpace_def scopeVars_def
        isWord_def matchReturn_def trim_def)
  have e: "3 = (if isEpsilon P then 0 else length (getRHS P))" by (simp add: P_def)
  have s: "show_nat 1 = ''1''" "show_nat (Suc 0) = ''1''" "show_nat 2 = ''2''" "show_nat 3 = ''3''"
    by (simp_all add: show_nat.simps digit_char_def)
  have u: "rev [1..<Suc 3] = [3, 2, 1]" by (simp add: upt_rec)
  have r: "referencesPlaceholder ''$$ = _1 + _3;'' 3"
    by (simp add: referencesPlaceholder_def s isWord_def)
  note t = handler_body_pops_and_push [OF a b d e, of "\<lambda>s. s = ''+''"]
  from t have "\<forall>i. referencesPlaceholder ''$$ = _1 + _3;'' i \<longrightarrow>
      str_includes ''$$ = _1 + _3;'' (''_'' @ show_nat i)" by blast
  with r have "str_includes ''$$ = _1 + _3;'' (''_'' @ show_nat 3)" by blast
  then have i: "str_includes ''$$ = _1 + _3;'' ''_3''" by (simp only: s append.simps)
  from t have "map action (productionHandlers (snd (buildSemanticAction (\<lambda>s. s = ''+'') P g))) =
           [''// Semantic action prologue.'' @ [CHR 0x0A] @
            ''auto _3 = POP_V();'' @ [CHR 0x0A] @
            ''parser.tokensStack.pop_back();'' @ [CHR 0x0A] @
            ''auto _1 = POP_V();'' @ [CHR 0x0A, CHR 0x0A] @
            ''$$ = _1 + _3;'' @ [CHR 0x0A, CHR 0x0A] @
            '' // Semantic action epilogue.'' @ [CHR 0x0A] @
            ''PUSH_VR();'' @ [CHR 0x0A]]"
    unfolding u by (simp add: positionPop_def s P_def g_def)
  with a d [symmetric] e [symmetric] r i show ?thesis
    unfolding Let_def P_def [symmetric] g_def [symmetric] by simp
qed

theorem handler_body_pops_and_push_counterexample:
  "(let P = \<lparr>getRHS = [''a'', ''b'', ''c'', ''d'', ''e'', ''f'', ''g'', ''h'', ''i'', ''j''],
              isEpsilon = False, derivesPropagatingToken = False,
              getSemanticActionCode = Some ''$$ = _10''\<rparr>;
        g = \<lparr>slots = Map.empty, productionHandlers = [], lexHandlers = [], terminalsMap = Map.empty\<rparr>;
        act = actionFromHandler (terminalsMap g) ''$$ = _10''
    in act = ''$$ = _10;''
       \<and> \<not> referencesPlaceholder act 1
       \<and> popText (positionPop (\<lambda>s. False) P (referencesPlaceholder act 1) 1) =
           ''parser.valuesStack.pop_back();''
       \<and> map action (productionHandlers (snd (buildSemanticAction (\<lambda>s. False) P g))) =
           [''// Semantic action prologue.'' @ [CHR 0x0A] @
            ''auto _10 = POP_V();'' @ [CHR 0x0A] @
            ''parser.valuesStack.pop_back();'' @ [CHR 0x0A] @
            ''parser.valuesStack.pop_back();'' @ [CHR 0x0A] @
            ''parser.valuesStack.pop_back();'' @ [CHR 0x0A] @
            ''parser.valuesStack.pop_back();'' @ [CHR 0x0A] @
            ''parser.valuesStack.pop_back();'' @ [CHR 0x0A] @
            ''parser.valuesStack.pop_back();'' @ [CHR 0x0A] @
            ''parser.valuesStack.pop_back();'' @ [CHR 0x0A] @
            ''parser.valuesStack.pop_back();'' @ [CHR 0x0A] @
            ''auto _1 = POP_V();'' @ [CHR 0x0A, CHR 0x0A] @
            ''$$ = _10;'' @ [CHR 0x0A, CHR 0x0A] @
            '' // Semantic action epilogue.'' @ [CHR 0x0A] @
            ''PUSH_VR();'' @ [CHR 0x0A]])"
  by code_simp

section \<open>The parsing table\<close>

lemma transformRow_fold:
  fixes f :: "'b \<Rightarrow> 'b" and acc todo :: "('a \<times> 'b) list"
  shows "distinct (map fst (acc @ todo)) \<Longrightarrow>
   fold (\<lambda>key r. case map_of r key of Some entry \<Rightarrow> AList.update key (f entry) r | None \<Rightarrow> r)
        (map fst todo) (acc @ todo) =
   acc @ map (\<lambda>(k, e). (k, f e)) todo"
proof (induction todo arbitrary: acc)
  case Nil
  then show ?case by simp
next
  case (Cons kv todo)
  define F :: "'a \<Rightarrow> ('a \<times> 'b) list \<Rightarrow> ('a \<times> 'b) list" where
    "F = (\<lambda>key r. case map_of r key of Some entry \<Rightarrow> AList.update key (f entry) r | None \<Rightarrow> r)"
  obtain k e where kv: "kv = (k, e)" by (cases kv)
  from Cons.prems have fresh: "k \<notin> fst ` set acc" by (auto simp: kv)
  then have look: "map_of (acc @ (k, e) # todo) k = Some e"
    by (simp add: map_add_def map_of_eq_None_iff [THEN iffD2])
  have upd: "AList.update k (f e) (acc @ (k, e) # todo) = (acc @ [(k, f e)]) @ todo"
    using fresh by (simp add: update_append_fresh)
  have Fk: "F k (acc @ (k, e) # todo) = (acc @ [(k, f e)]) @ todo"
    by (simp only: F_def look upd option.case)
  have "distinct (map fst ((acc @ [(k, f e)]) @ todo))" using Cons.prems by (simp add: kv)
  from Cons.IH [OF this] have ih: "fold F (map fst todo) ((acc @ [(k, f e)]) @ todo) =
      (acc @ [(k, f e)]) @ map (\<lambda>(k, e). (k, f e)) todo"
    by (simp only: F_def)
  have "fold F (map fst (kv # todo)) (acc @ kv # todo) =
      fold F (map fst todo) (F k (acc @ (k, e) # todo))"
    by (simp only: kv list.map fst_conv fold_simps)
  also have "\<dots> = acc @ map (\<lambda>(k, e). (k, f e)) (kv # todo)"
    by (simp only: Fk ih) (simp add: kv)
  finally show ?case by (simp only: F_def)
qed

lemma transformRow_map:
  "distinct (map fst row) \<Longrightarrow> transformRow row = map (\<lambda>(k, e). (k, tableEntry e)) row"
  unfolding transformRow_def using transformRow_fold [of "[]" row tableEntry] by simp

lemma toCppMapEntries_number:
  "toCppMapEntries num object ''number'' valueType =
     Inr (map (\<lambda>(k, v). ''{'' @ num (escapeQuotes k) @ '', '' @ mapValue num v valueType @ ''}'') object)"
  by (induction object) (auto simp: mapKey_def)

lemma tableRows_distinct:
  "\<forall>(state, row) \<in> set table. distinct (map fst row) \<Longrightarrow>
   tableRows num table =
     Inr (map (\<lambda>(state, row).
                 ''Row {'' @
                 join '', '' (map (\<lambda>(k, e). ''{'' @ num (escapeQuotes k) @ '', '' @ tableEntry e @ ''}'') row) @
                 ''}'') table)"
proof (induction table)
  case Nil
  then show ?case by simp
next
  case (Cons sr table)
  obtain state row where sr: "sr = (state, row)" by (cases sr)
  from Cons.prems have d: "distinct (map fst row)" by (simp add: sr)
  have "toCppMap num (map (\<lambda>(k, e). (k, Scalar e)) (transformRow row)) ''Row'' ''number'' ''raw'' =
      Inr (''Row {'' @
           join '', '' (map (\<lambda>(k, e). ''{'' @ num (escapeQuotes k) @ '', '' @ tableEntry e @ ''}'') row) @
           ''}'')"
    by (simp add: toCppMap_def toCppMapEntries_number transformRow_map [OF d] mapValue_def
        split_def o_def)
  with Cons show ?case by (simp add: sr)
qed

lemma taggedPair_inject: "taggedPair p = taggedPair q \<Longrightarrow> p = q"
proof -
  assume eq: "taggedPair p = taggedPair q"
  obtain k n where p: "p = (k, n)" by (cases p)
  obtain k' n' where q: "q = (k', n')" by (cases q)
  from eq have "kindName k @ '', '' @ n @ ''}'' = kindName k' @ '', '' @ n' @ ''}''"
    by (simp add: taggedPair_def p q)
  then show ?thesis unfolding p q by (cases k; cases k'; simp)
qed

text \<open>
  Claim C2. \<^verbatim>\<open>_buildTable\<close> replaces every directive of every row, in place and in
  order, by the tagged pair of its action kind and operand: \<^verbatim>\<open>s<N>\<close> by
  \<^verbatim>\<open>{TE::Shift, N}\<close>, \<^verbatim>\<open>r<N>\<close> by \<^verbatim>\<open>{TE::Reduce, N}\<close>, \<^verbatim>\<open>acc\<close> by
  \<^verbatim>\<open>{TE::Accept, 0}\<close> and any other value by \<^verbatim>\<open>{TE::Transit, <value>}\<close>. The kind
  and the operand can be read back from the tagged pair, and they give back the directive.
\<close>

theorem table_directives_decoded:
  assumes "\<forall>(state, row) \<in> set table. distinct (map fst row)"
  shows "buildTable num table g =
           Inr (''{'' @ [CHR 0x0A] @ ''    '' @
                join ('','' @ [CHR 0x0A] @ ''    '')
                  (map (\<lambda>(state, row).
                          ''Row {'' @
                          join '', '' (map (\<lambda>(k, e). ''{'' @ num (escapeQuotes k) @ '', '' @
                                                     taggedPair (decodeDirective e) @ ''}'') row) @
                          ''}'') table) @
                [CHR 0x0A] @ ''}'',
                writeData ''ROWS_COUNT'' (show_nat (length table)) g)
         \<and> tableEntry e = taggedPair (decodeDirective e)
         \<and> tableEntry (CHR ''s'' # n) = ''{TE::Shift, '' @ n @ ''}''
         \<and> tableEntry (CHR ''r'' # n) = ''{TE::Reduce, '' @ n @ ''}''
         \<and> tableEntry ''acc'' = ''{TE::Accept, 0}''
         \<and> (take 1 e \<noteq> ''s'' \<and> take 1 e \<noteq> ''r'' \<and> e \<noteq> ''acc'' \<longrightarrow>
              tableEntry e = ''{TE::Transit, '' @ e @ ''}'')
         \<and> decodeDirective (CHR ''s'' # n) = (Shift, n)
         \<and> decodeDirective (CHR ''r'' # n) = (Reduce, n)
         \<and> decodeDirective ''acc'' = (Accept, ''0'')
         \<and> (take 1 e \<noteq> ''s'' \<and> take 1 e \<noteq> ''r'' \<and> e \<noteq> ''acc'' \<longrightarrow> decodeDirective e = (Transit, e))
         \<and> encodeDirective (decodeDirective e) = e
         \<and> (taggedPair p = taggedPair (decodeDirective e) \<longrightarrow> p = decodeDirective e)"
proof -
  have te: "tableEntry x = taggedPair (decodeDirective x)" for x
    by (cases x) (auto simp: tableEntry_def decodeDirective_def taggedPair_def)
  have enc: "encodeDirective (decodeDirective e) = e"
    by (cases e) (auto simp: decodeDirective_def)
  have tr: "take 1 e \<noteq> ''s'' \<and> take 1 e \<noteq> ''r'' \<and> e \<noteq> ''acc'' \<longrightarrow> decodeDirective e = (Transit, e)"
    by (cases e) (auto simp: decodeDirective_def)
  have tr': "take 1 e \<noteq> ''s'' \<and> take 1 e \<noteq> ''r'' \<and> e \<noteq> ''acc'' \<longrightarrow>
              tableEntry e = ''{TE::Transit, '' @ e @ ''}''"
    by (simp add: tableEntry_def)
  have bt: "buildTable num table g =
           Inr (''{'' @ [CHR 0x0A] @ ''    '' @
                join ('','' @ [CHR 0x0A] @ ''    '')
                  (map (\<lambda>(state, row).
                          ''Row {'' @
                          join '', '' (map (\<lambda>(k, e). ''{'' @ num (escapeQuotes k) @ '', '' @
                                                     taggedPair (decodeDirective e) @ ''}'') row) @
                          ''}'') table) @
                [CHR 0x0A] @ ''}'',
                writeData ''ROWS_COUNT'' (show_nat (length table)) g)"
    by (simp add: buildTable_def tableRows_distinct [OF assms] te)
  have s: "tableEntry (CHR ''s'' # n) = ''{TE::Shift, '' @ n @ ''}''"
    "tableEntry (CHR ''r'' # n) = ''{TE::Reduce, '' @ n @ ''}''"
    "tableEntry ''acc'' = ''{TE::Accept, 0}''"
    "decodeDirective (CHR ''s'' # n) = (Shift, n)"
    "decodeDirective (CHR ''r'' # n) = (Reduce, n)"
    "decodeDirective ''acc'' = (Accept, ''0'')"
    by (simp_all add: tableEntry_def decodeDirective_def)
  have inj: "taggedPair p = taggedPair (decodeDirective e) \<longrightarrow> p = decodeDirective e"
    using taggedPair_inject by blast
  show ?thesis using bt te enc tr tr' s inj by blast
qed

theorem table_directives_decoded_witness:
  "(let row0 = [(''3'', ''s7''), (''1'', ''12'')];
        row1 = [(''4'', ''r3''), (''5'', ''acc'')];
        g = \<lparr>slots = Map.empty, productionHandlers = [], lexHandlers = [], terminalsMap = Map.empty\<rparr>
    in distinct (map fst row0) \<and> distinct (map fst row1)
       \<and> buildTable id [(''0'', row0), (''1'', row1)] g =
           Inr (''{'' @ [CHR 0x0A] @
                ''    Row {{3, {TE::Shift, 7}}, {1, {TE::Transit, 12}}},'' @ [CHR 0x0A] @
                ''    Row {{4, {TE::Reduce, 3}}, {5, {TE::Accept, 0}}}'' @ [CHR 0x0A] @ ''}'',
                g\<lparr>slots := [''ROWS_COUNT'' \<mapsto> ''2'']\<rparr>)
       \<and> take 1 ''12'' \<noteq> ''s'' \<and> take 1 ''12'' \<noteq> ''r'' \<and> ''12'' \<noteq> ''acc''
       \<and> decodeDirective ''12'' = (Transit, ''12'')
       \<and> taggedPair (Transit, ''12'') = taggedPair (decodeDirective ''12''))"
proof -
  define row0 where "row0 = [(''3'', ''s7''), (''1'', ''12'')]"
  define row1 where "row1 = [(''4'', ''r3''), (''5'', ''acc'')]"
  define g where "g = \<lparr>slots = (Map.empty :: string \<rightharpoonup> string), productionHandlers = [],
                       lexHandlers = [], terminalsMap = (Map.empty :: string \<rightharpoonup> nat)\<rparr>"
  have d: "distinct (map fst row0)" "distinct (map fst row1)" by (simp_all add: row0_def row1_def)
  then have h: "\<forall>(state, row) \<in> set [(''0'', row0), (''1'', row1)]. distinct (map fst row)" by simp
  have c: "take 1 ''12'' \<noteq> ''s'' \<and> take 1 ''12'' \<noteq> ''r'' \<and> ''12'' \<noteq> ''acc''" by simp
  note t = table_directives_decoded [OF h, of id g "''12''" "''7''" "(Transit, ''12'')"]
  from t c have dd: "decodeDirective ''12'' = (Transit, ''12'')" by blast
  from t have "buildTable id [(''0'', row0), (''1'', row1)] g =
           Inr (''{'' @ [CHR 0x0A] @
                ''    Row {{3, {TE::Shift, 7}}, {1, {TE::Transit, 12}}},'' @ [CHR 0x0A] @
                ''    Row {{4, {TE::Reduce, 3}}, {5, {TE::Accept, 0}}}'' @ [CHR 0x0A] @ ''}'',
                g\<lparr>slots := [''ROWS_COUNT'' \<mapsto> ''2'']\<rparr>)"
    by (simp add: row0_def row1_def g_def decodeDirective_def taggedPair_def writeData_def
        show_nat.simps digit_char_def)
  with d c dd show ?thesis
    unfolding Let_def row0_def [symmetric] row1_def [symmetric] g_def [symmetric] by simp
qed

section \<open>The productions array\<close>


section \<open>Lexical rules\<close>

lemma occurrences_zero: "occurrences p s = 0 \<longleftrightarrow> \<not> str_includes s p"
  by (induction s) auto

lemma lexRuleEntries_result:
  "lexRuleEntries rs g =
     (map (\<lambda>(i, r). ''{std::regex(R'' @ [CHR 0x22] @ ''('' @ getRawMatcher r @ '')'' @ [CHR 0x22] @ ''), '' @
                      ''&_lexRule'' @ show_nat (length (lexHandlers g) + i + 1) @ ''}'')
          (enumerate 0 rs),
      g\<lparr>lexHandlers := lexHandlers g @
          map (\<lambda>r. \<lparr>args = ''const Tokenizer& tokenizer, const std::string& yytext'',
                     action = actionFromHandler (terminalsMap g) (lexHandlerSource (getRawHandler r))\<rparr>) rs\<rparr>)"
proof (induction rs arbitrary: g)
  case Nil
  then show ?case by simp
next
  case (Cons r rs)
  show ?case
    by (simp add: Cons.IH lexRuleEntry_def Let_def split_def enumerate_Suc_eq map_prod_def o_def)
qed

lemma lexRulesByConditions_distinct:
  "distinct (map fst (getRulesByStartConditions lg)) \<Longrightarrow>
   lexRulesByConditions lg =
     map (\<lambda>(condition, rs). (''TokenizerState::'' @ condition, Vector (map (getRuleIndex lg) rs)))
       (getRulesByStartConditions lg)"
  unfolding lexRulesByConditions_def
  using fold_update_distinct [of "\<lambda>c. ''TokenizerState::'' @ c" "getRulesByStartConditions lg" "[]"
      "\<lambda>c rs. Vector (map (getRuleIndex lg) rs)"]
  by (simp add: inj_def)

text \<open>
  Claim C4, as amended. \<^verbatim>\<open>generateLexRules\<close> numbers the handlers with a counter of
  its own, the length of \<^verbatim>\<open>_lexHandlers\<close> after the push: the handler of the rule at
  position \<open>i\<close> (from 0) of \<^verbatim>\<open>getRules()\<close> is appended behind the handlers that
  were there, and the rule's entry of \<^verbatim>\<open>LEX_RULES\<close> refers to it by that 1-based
  position. The numbering does not consult \<^verbatim>\<open>getRuleIndex\<close>. The table by start
  condition lists \<^verbatim>\<open>getRuleIndex(rule)\<close> for the rules of each condition, in their
  order. For a rule of the rule list the two numbers are equal exactly when
  \<^verbatim>\<open>getRuleIndex\<close> returns the 1-based position that the handler got.
\<close>

theorem lex_rule_indices:
  assumes "distinct (map fst (getRulesByStartConditions lg))"
  shows "lexHandlers (generateLexRules lg g) =
           lexHandlers g @
           map (\<lambda>r. \<lparr>args = ''const Tokenizer& tokenizer, const std::string& yytext'',
                      action = actionFromHandler (terminalsMap g) (lexHandlerSource (getRawHandler r))\<rparr>)
             (getRules lg)
         \<and> slots (generateLexRules lg g) ''LEX_RULES'' =
           Some (''{{'' @ [CHR 0x0A] @ ''  '' @
                 join ('','' @ [CHR 0x0A] @ ''  '')
                   (map (\<lambda>(i, r). ''{std::regex(R'' @ [CHR 0x22] @ ''('' @ getRawMatcher r @ '')'' @
                                    [CHR 0x22] @ ''), '' @ ''&_lexRule'' @
                                    show_nat (length (lexHandlers g) + i + 1) @ ''}'')
                      (enumerate 0 (getRules lg))) @
                 [CHR 0x0A] @ ''}}'')
         \<and> generateLexRules (lg\<lparr>getRuleIndex := f\<rparr>) g = generateLexRules lg g
         \<and> lexRulesByConditions lg =
           map (\<lambda>(condition, rs). (''TokenizerState::'' @ condition, Vector (map (getRuleIndex lg) rs)))
             (getRulesByStartConditions lg)
         \<and> (\<forall>(condition, rs) \<in> set (getRulesByStartConditions lg).
              \<forall>j < length rs. \<forall>i < length (getRules lg).
                rs ! j = getRules lg ! i \<longrightarrow>
                  (map (getRuleIndex lg) rs ! j = length (lexHandlers g) + i + 1
                   \<longleftrightarrow> getRuleIndex lg (getRules lg ! i) = length (lexHandlers g) + i + 1))"
proof -
  have "lexRulesByConditions lg =
          map (\<lambda>(condition, rs). (''TokenizerState::'' @ condition, Vector (map (getRuleIndex lg) rs)))
            (getRulesByStartConditions lg)"
    using assms by (rule lexRulesByConditions_distinct)
  moreover have "generateLexRules (lg\<lparr>getRuleIndex := f\<rparr>) g = generateLexRules lg g"
    by (simp add: generateLexRules_def)
  moreover have "\<forall>(condition, rs) \<in> set (getRulesByStartConditions lg).
              \<forall>j < length rs. \<forall>i < length (getRules lg).
                rs ! j = getRules lg ! i \<longrightarrow>
                  (map (getRuleIndex lg) rs ! j = length (lexHandlers g) + i + 1
                   \<longleftrightarrow> getRuleIndex lg (getRules lg ! i) = length (lexHandlers g) + i + 1)"
    by auto
  ultimately show ?thesis
    by (simp add: generateLexRules_def lexRuleEntries_result writeData_def Let_def)
qed

theorem lex_rule_indices_witness:
  "(let r1 = \<lparr>getRawMatcher = ''[0-9]+'', getRawHandler = ''NUMBER''\<rparr>;
        r2 = \<lparr>getRawMatcher = ''[a-z]+'', getRawHandler = ''return ID''\<rparr>;
        lg = \<lparr>getRules = [r1, r2],
              getRulesByStartConditions = [(''INITIAL'', [r1, r2]), (''tail'', [r2])],
              getRuleIndex = (\<lambda>r. if r = r1 then 1 else 2)\<rparr>;
        g = \<lparr>slots = Map.empty, productionHandlers = [], lexHandlers = [], terminalsMap = Map.empty\<rparr>
    in distinct (map fst (getRulesByStartConditions lg))
       \<and> map action (lexHandlers (generateLexRules lg g)) =
           [''return TokenType::NUMBER;'', ''return TokenType::ID;'']
       \<and> lexRulesByConditions lg =
           [(''TokenizerState::INITIAL'', Vector [1, 2]), (''TokenizerState::tail'', Vector [2])])"
proof -
  define r1 where "r1 = \<lparr>getRawMatcher = ''[0-9]+'', getRawHandler = ''NUMBER''\<rparr>"
  define r2 where "r2 = \<lparr>getRawMatcher = ''[a-z]+'', getRawHandler = ''return ID''\<rparr>"
  define lg where "lg = \<lparr>getRules = [r1, r2],
              getRulesByStartConditions = [(''INITIAL'', [r1, r2]), (''tail'', [r2])],
              getRuleIndex = (\<lambda>r. if r = r1 then 1 else (2::nat))\<rparr>"
  define g where "g = \<lparr>slots = Map.empty, productionHandlers = [], lexHandlers = [], terminalsMap = Map.empty\<rparr>"
  have d: "distinct (map fst (getRulesByStartConditions lg))" by (simp add: lg_def)
  have n: "r2 \<noteq> r1" by (simp add: r1_def r2_def)
  have a1: "actionFromHandler Map.empty (lexHandlerSource ''NUMBER'') = ''return TokenType::NUMBER;''"
    by (simp add: actionFromHandler_def lexHandlerSource_def endsWithSemicolon_def isSpace_def
        scopeVars_def matchReturn_def returnToken_def stripQuotes_def isQuote_def trim_def)
  have a2: "actionFromHandler Map.empty (lexHandlerSource ''return ID'') = ''return TokenType::ID;''"
    by (simp add: actionFromHandler_def lexHandlerSource_def endsWithSemicolon_def isSpace_def
        scopeVars_def matchReturn_def returnToken_def stripQuotes_def isQuote_def trim_def)
  from lex_rule_indices [OF d, of g]
  have "map action (lexHandlers (generateLexRules lg g)) =
           [''return TokenType::NUMBER;'', ''return TokenType::ID;'']
       \<and> lexRulesByConditions lg =
           [(''TokenizerState::INITIAL'', Vector [1, 2]), (''TokenizerState::tail'', Vector [2])]"
    using n by (simp add: lg_def g_def r1_def r2_def a1 a2)
  with d show ?thesis
    unfolding Let_def r1_def r2_def lg_def g_def by simp
qed

theorem lex_rule_indices_counterexample:
  "(let r = \<lparr>getRawMatcher = ''[0-9]+'', getRawHandler = ''NUMBER''\<rparr>;
        lg = \<lparr>getRules = [r], getRulesByStartConditions = [(''INITIAL'', [r])],
              getRuleIndex = (\<lambda>r. 0)\<rparr>;
        g = \<lparr>slots = Map.empty, productionHandlers = [], lexHandlers = [], terminalsMap = Map.empty\<rparr>
    in map action (lexHandlers (generateLexRules lg g)) = [''return TokenType::NUMBER;'']
       \<and> slots (generateLexRules lg g) ''LEX_RULES'' =
           Some (''{{'' @ [CHR 0x0A] @ ''  {std::regex(R'' @ [CHR 0x22] @ ''([0-9]+)'' @ [CHR 0x22] @
                 ''), &_lexRule1}'' @ [CHR 0x0A] @ ''}}'')
       \<and> lexRulesByConditions lg = [(''TokenizerState::INITIAL'', Vector [0])]
       \<and> map (getRuleIndex lg) [r] ! 0 \<noteq> length (lexHandlers g) + 0 + 1)"
  by (simp add: generateLexRules_def lexRuleEntry_def writeData_def lexRulesByConditions_def Let_def
      show_nat.simps digit_char_def
      actionFromHandler_def lexHandlerSource_def endsWithSemicolon_def isSpace_def
      scopeVars_def matchReturn_def returnToken_def stripQuotes_def isQuote_def trim_def)

section \<open>Placeholder rewriting\<close>

lemma matchReturn_statement:
  assumes "ws \<noteq> []" and "list_all isSpace ws" and "v \<noteq> []" and "\<not> isSpace (hd v)"
    and "CHR '';'' \<notin> set v"
  shows "matchReturn (''return'' @ ws @ v @ '';'' @ post) = Some (v, post)"
proof -
  define r where "r = ws @ v @ CHR '';'' # post"
  have sp: "\<And>c. c \<in> set ws \<Longrightarrow> isSpace c" using assms(2) by (simp add: list_all_iff)
  have nsemi: "\<And>c. c \<in> set (ws @ v) \<Longrightarrow> c \<noteq> CHR '';''"
    using sp assms(5) by (auto simp: isSpace_def)
  obtain h t where v: "v = h # t" using assms(3) by (cases v) auto
  have "takeWhile isSpace (ws @ (h # t @ CHR '';'' # post)) = ws @ takeWhile isSpace (h # t @ CHR '';'' # post)"
    using sp by (rule takeWhile_append2)
  then have tw: "takeWhile isSpace r = ws" using assms(4) by (simp add: r_def v)
  have r2: "r = (ws @ v) @ CHR '';'' # post" by (simp add: r_def)
  have "takeWhile (\<lambda>c. c \<noteq> CHR '';'') ((ws @ v) @ CHR '';'' # post) =
        (ws @ v) @ takeWhile (\<lambda>c. c \<noteq> CHR '';'') (CHR '';'' # post)"
    using nsemi by (rule takeWhile_append2)
  then have tb: "takeWhile (\<lambda>c. c \<noteq> CHR '';'') r = ws @ v" by (simp add: r2)
  have "dropWhile (\<lambda>c. c \<noteq> CHR '';'') ((ws @ v) @ CHR '';'' # post) =
        dropWhile (\<lambda>c. c \<noteq> CHR '';'') (CHR '';'' # post)"
    using nsemi by (rule dropWhile_append2)
  then have db: "dropWhile (\<lambda>c. c \<noteq> CHR '';'') r = CHR '';'' # post" by (simp add: r2)
  have len: "\<not> length (ws @ v) < 2" "length ws < length (ws @ v)"
    using assms(1,3) by (cases ws; cases v; simp)+
  have dv: "drop (length ws) (ws @ v) = v" by simp
  have pr: "prefix ''return'' (''return'' @ r)" by simp
  have dr: "drop 6 (''return'' @ r) = r" by simp
  have "matchReturn (''return'' @ r) = Some (v, post)"
    unfolding matchReturn_def Let_def
    by (simp only: pr dr tw tb db len dv if_True if_False assms(1) list.simps simp_thms list.sel)
  then show ?thesis by (simp add: r_def)
qed

subsection \<open>The scan of the third replacement\<close>

lemma matchReturn_semicolon:
  "matchReturn s = Some (t, r) \<Longrightarrow> CHR '';'' \<in> set (drop 6 s)"
proof -
  assume m: "matchReturn s = Some (t, r)"
  let ?d = "dropWhile (\<lambda>c. c \<noteq> CHR '';'') (drop 6 s)"
  from m have "?d \<noteq> []"
    by (auto simp: matchReturn_def Let_def split: if_splits)
  then show ?thesis by (auto simp: dropWhile_eq_Nil_conv)
qed

lemma matchReturn_within:
  assumes semi: "CHR '';'' \<in> set (drop 6 s)"
  shows "matchReturn (s @ y) = map_option (\<lambda>(t, r). (t, r @ y)) (matchReturn s)"
proof (cases "prefix ''return'' (s @ y)")
  case False
  then have "\<not> prefix ''return'' s" using prefix_prefix by blast
  with False show ?thesis by (simp add: matchReturn_def)
next
  case py: True
  from semi have six: "6 < length s" by (cases "6 < length s") auto
  have "length (''return'' :: string) \<le> length s" using six by simp
  with py have p: "prefix ''return'' s"
    using prefix_length_prefix [of "''return''" "s @ y" s] by simp
  let ?r = "drop 6 s"
  have d: "drop 6 (s @ y) = ?r @ y" using six by simp
  have t1: "takeWhile (\<lambda>c. c \<noteq> CHR '';'') (?r @ y) = takeWhile (\<lambda>c. c \<noteq> CHR '';'') ?r"
    using semi by (intro takeWhile_append1 [of "CHR '';''"]) auto
  have t2: "dropWhile (\<lambda>c. c \<noteq> CHR '';'') (?r @ y) = dropWhile (\<lambda>c. c \<noteq> CHR '';'') ?r @ y"
    using semi by (intro dropWhile_append1 [of "CHR '';''"]) auto
  have t3: "takeWhile isSpace (?r @ y) = takeWhile isSpace ?r"
    using semi by (intro takeWhile_append1 [of "CHR '';''"]) (auto simp: isSpace_def)
  have ne: "dropWhile (\<lambda>c. c \<noteq> CHR '';'') ?r \<noteq> []"
    using semi by (simp add: dropWhile_eq_Nil_conv)
  let ?B = "takeWhile (\<lambda>c. c \<noteq> CHR '';'') ?r"
  let ?D = "dropWhile (\<lambda>c. c \<noteq> CHR '';'') ?r"
  let ?W = "takeWhile isSpace ?r"
  let ?tok = "if length ?W < length ?B then drop (length ?W) ?B else [last ?B]"
  have m1: "matchReturn s = (if ?D = [] \<or> ?W = [] \<or> length ?B < 2 then None else Some (?tok, tl ?D))"
    unfolding matchReturn_def Let_def using p by (simp only: if_True)
  have m2: "matchReturn (s @ y) =
      (if ?D @ y = [] \<or> ?W = [] \<or> length ?B < 2 then None else Some (?tok, tl (?D @ y)))"
    unfolding matchReturn_def Let_def d t1 t2 t3 using py by (simp only: if_True)
  show ?thesis
    unfolding m1 m2 using ne by (cases ?D) simp_all
qed

lemma matchReturn_overrun:
  assumes "CHR '';'' \<notin> set (drop 6 s)" and m: "matchReturn (s @ y) = Some (t, r)"
  shows "length r < length y"
proof -
  let ?d = "dropWhile (\<lambda>c. c \<noteq> CHR '';'') (drop 6 (s @ y))"
  from m have r: "r = tl ?d" and ne: "?d \<noteq> []"
    by (auto simp: matchReturn_def Let_def split: if_splits)
  have "drop 6 (s @ y) = drop 6 s @ drop (6 - length s) y" by simp
  moreover have "dropWhile (\<lambda>c. c \<noteq> CHR '';'') (drop 6 s @ drop (6 - length s) y) =
      dropWhile (\<lambda>c. c \<noteq> CHR '';'') (drop (6 - length s) y)"
    using assms(1) by (intro dropWhile_append2) auto
  ultimately have "?d = dropWhile (\<lambda>c. c \<noteq> CHR '';'') (drop (6 - length s) y)" by simp
  then have "length ?d \<le> length (drop (6 - length s) y)" by (simp only: length_dropWhile_le)
  also have "\<dots> \<le> length y" by simp
  finally have "length ?d \<le> length y" .
  moreover have "length r < length ?d" unfolding r using ne by (cases ?d) auto
  ultimately show ?thesis by simp
qed

lemma matchReturn_None_append: "matchReturn (s @ y) = None \<Longrightarrow> matchReturn s = None"
proof (rule ccontr)
  assume n: "matchReturn (s @ y) = None" and "matchReturn s \<noteq> None"
  then obtain t r where m: "matchReturn s = Some (t, r)" by auto
  then have "CHR '';'' \<in> set (drop 6 s)" by (rule matchReturn_semicolon)
  then have "matchReturn (s @ y) = map_option (\<lambda>(t, r). (t, r @ y)) (matchReturn s)"
    by (rule matchReturn_within)
  with n m show False by simp
qed

lemma matchReturn_Some_append:
  assumes m: "matchReturn (s @ y) = Some (t, r)" and len: "length y \<le> length r"
  shows "matchReturn s = Some (t, take (length r - length y) r) \<and> r = take (length r - length y) r @ y"
proof -
  have semi: "CHR '';'' \<in> set (drop 6 s)"
  proof (rule ccontr)
    assume "CHR '';'' \<notin> set (drop 6 s)"
    then have "length r < length y" using m by (rule matchReturn_overrun)
    with len show False by simp
  qed
  then have "matchReturn (s @ y) = map_option (\<lambda>(t, r). (t, r @ y)) (matchReturn s)"
    by (rule matchReturn_within)
  with m obtain r' where "matchReturn s = Some (t, r')" and "r = r' @ y" by auto
  then show ?thesis by simp
qed

lemma replaceTokenRe_arrives:
  "scanArrives pre y \<Longrightarrow> replaceTokenRe f (pre @ y) = replaceTokenRe f pre @ replaceTokenRe f y"
proof (induction pre y rule: scanArrives.induct)
  case (1 y)
  then show ?case by simp
next
  case (2 c cs y)
  have unf: "replaceTokenRe f ((c # cs) @ y) =
     (case matchReturn (c # cs @ y) of
        Some (token, rest) \<Rightarrow> f token @ replaceTokenRe f rest
      | None \<Rightarrow> c # replaceTokenRe f (cs @ y))"
    by (simp only: append_Cons replaceTokenRe.simps(2))
  show ?case
  proof (cases "matchReturn (c # cs @ y)")
    case None
    with "2.prems" have "scanArrives cs y" by simp
    with "2.IH"(1) [OF None] have ih: "replaceTokenRe f (cs @ y) =
        replaceTokenRe f cs @ replaceTokenRe f y" by simp
    from None have "matchReturn ((c # cs) @ y) = None" by simp
    then have "matchReturn (c # cs) = None" by (rule matchReturn_None_append)
    then have "replaceTokenRe f (c # cs) = c # replaceTokenRe f cs"
      by (simp only: replaceTokenRe.simps(2) option.case)
    moreover have "replaceTokenRe f ((c # cs) @ y) = c # replaceTokenRe f (cs @ y)"
      unfolding unf None by simp
    ultimately show ?thesis using ih by simp
  next
    case (Some tr)
    obtain t r where tr: "tr = (t, r)" by (cases tr)
    let ?r' = "take (length r - length y) r"
    from "2.prems" Some tr have len: "length y \<le> length r" and arr: "scanArrives ?r' y"
      by simp_all
    from Some tr have "matchReturn ((c # cs) @ y) = Some (t, r)" by simp
    from matchReturn_Some_append [OF this len]
    have m: "matchReturn (c # cs) = Some (t, ?r')" and r: "r = ?r' @ y" by simp_all
    from "2.IH"(2) [OF Some [unfolded tr] refl arr]
    have ih: "replaceTokenRe f (?r' @ y) = replaceTokenRe f ?r' @ replaceTokenRe f y" .
    have "replaceTokenRe f ((c # cs) @ y) = f t @ replaceTokenRe f r"
      unfolding unf Some tr by simp
    also have "\<dots> = f t @ replaceTokenRe f (?r' @ y)" using r by simp
    finally have "replaceTokenRe f ((c # cs) @ y) = f t @ replaceTokenRe f ?r' @ replaceTokenRe f y"
      using ih by simp
    moreover have "replaceTokenRe f (c # cs) = f t @ replaceTokenRe f ?r'"
      using m by (simp only: replaceTokenRe.simps(2) option.case prod.case)
    ultimately show ?thesis by simp
  qed
qed

lemma matchReturn_matched:
  assumes "matchReturn s = Some (t, r)"
  shows "\<exists>a. s = a @ r \<and> a \<noteq> []"
proof -
  let ?d = "dropWhile (\<lambda>c. c \<noteq> CHR '';'') (drop 6 s)"
  from assms have r: "r = tl ?d" and ne: "?d \<noteq> []"
    by (auto simp: matchReturn_def Let_def split: if_splits)
  have "s = take 6 s @ (takeWhile (\<lambda>c. c \<noteq> CHR '';'') (drop 6 s) @ ?d)" by simp
  also have "?d = hd ?d # tl ?d" using ne by simp
  finally have "s = (take 6 s @ takeWhile (\<lambda>c. c \<noteq> CHR '';'') (drop 6 s) @ [hd ?d]) @ r"
    unfolding r by simp
  then show ?thesis by blast
qed

lemma scan_overrun:
  "\<not> scanArrives pre y \<Longrightarrow>
   \<exists>p1 p2 tok r. pre = p1 @ p2 \<and> p2 \<noteq> [] \<and> scanArrives p1 (p2 @ y) \<and>
     matchReturn (p2 @ y) = Some (tok, r) \<and> length r < length y"
proof (induction pre y rule: scanArrives.induct)
  case (1 y)
  then show ?case by simp
next
  case (2 c cs y)
  show ?case
  proof (cases "matchReturn (c # cs @ y)")
    case None
    with "2.prems" have "\<not> scanArrives cs y" by simp
    from "2.IH"(1) [OF None this] obtain p1 p2 tok r where
      p: "cs = p1 @ p2" "p2 \<noteq> []" "scanArrives p1 (p2 @ y)"
        "matchReturn (p2 @ y) = Some (tok, r)" "length r < length y"
      by blast
    from None p(1) have "matchReturn (c # p1 @ p2 @ y) = None" by simp
    with p(3) have "scanArrives (c # p1) (p2 @ y)" by simp
    moreover have "c # cs = (c # p1) @ p2" using p(1) by simp
    ultimately show ?thesis using p(2,4,5) by blast
  next
    case (Some tr)
    obtain t r where tr: "tr = (t, r)" by (cases tr)
    note m = Some [unfolded tr]
    show ?thesis
    proof (cases "length y \<le> length r")
      case False
      have "scanArrives [] ((c # cs) @ y)" by simp
      moreover have "matchReturn ((c # cs) @ y) = Some (t, r)" using m by simp
      moreover have "c # cs = [] @ (c # cs)" by simp
      ultimately show ?thesis using False
        by (intro exI [of _ "[]"] exI [of _ "c # cs"] exI [of _ t] exI [of _ r]) simp
    next
      case True
      let ?r' = "take (length r - length y) r"
      from m have "matchReturn ((c # cs) @ y) = Some (t, r)" by simp
      from matchReturn_Some_append [OF this True]
      have m': "matchReturn (c # cs) = Some (t, ?r')" and r: "r = ?r' @ y" by simp_all
      from "2.prems" m True have "\<not> scanArrives ?r' y" by simp
      from "2.IH"(2) [OF Some [unfolded tr] refl this] obtain q1 q2 tok r2 where
        q: "?r' = q1 @ q2" "q2 \<noteq> []" "scanArrives q1 (q2 @ y)"
          "matchReturn (q2 @ y) = Some (tok, r2)" "length r2 < length y"
        by blast
      from matchReturn_matched [OF m'] obtain a where a: "c # cs = a @ ?r'" "a \<noteq> []" by blast
      obtain a' where a': "a = c # a'" using a by (cases a) auto
      have e: "c # cs = (c # a' @ q1) @ q2" using a(1) a' q(1) by simp
      have full: "c # (a' @ q1) @ q2 @ y = c # cs @ y" using e by simp
      have rq: "r = q1 @ q2 @ y" using r q(1) by simp
      have mm: "matchReturn (c # (a' @ q1) @ q2 @ y) = Some (t, r)"
        using m by (simp only: full)
      have tk: "take (length r - length (q2 @ y)) r = q1" and ln: "length (q2 @ y) \<le> length r"
        unfolding rq by simp_all
      have "scanArrives (c # a' @ q1) (q2 @ y)"
        by (simp only: scanArrives.simps(2) mm option.case prod.case tk ln q(3) simp_thms)
      with e q(2,4,5) show ?thesis by blast
    qed
  qed
qed

lemma overrun_ends_at_semicolon:
  assumes m: "matchReturn (p2 @ a @ CHR '';'' # post) = Some (tok, r)"
    and len: "length r < length (a @ CHR '';'' # post)"
    and a: "CHR '';'' \<notin> set a" and six: "6 \<le> length a"
  shows "r = post"
proof -
  let ?y = "a @ CHR '';'' # post"
  have nsemi: "CHR '';'' \<notin> set (drop 6 p2)"
  proof
    assume "CHR '';'' \<in> set (drop 6 p2)"
    then have "matchReturn (p2 @ ?y) = map_option (\<lambda>(t, r). (t, r @ ?y)) (matchReturn p2)"
      by (rule matchReturn_within)
    with m obtain r' where "r = r' @ ?y" by auto
    with len show False by simp
  qed
  let ?d = "dropWhile (\<lambda>c. c \<noteq> CHR '';'') (drop 6 (p2 @ ?y))"
  from m have r: "r = tl ?d"
    by (auto simp: matchReturn_def Let_def split: if_splits)
  have "drop 6 (p2 @ ?y) = (drop 6 p2 @ drop (6 - length p2) a) @ CHR '';'' # post"
    using six by simp
  moreover have "dropWhile (\<lambda>c. c \<noteq> CHR '';'') ((drop 6 p2 @ drop (6 - length p2) a) @ CHR '';'' # post) =
      dropWhile (\<lambda>c. c \<noteq> CHR '';'') (CHR '';'' # post)"
    using nsemi a by (intro dropWhile_append2) (auto dest: in_set_dropD)
  ultimately have "?d = CHR '';'' # post" by simp
  then show ?thesis unfolding r by simp
qed

lemma replaceTokenRe_swallowed:
  assumes "\<not> scanArrives pre (a @ CHR '';'' # post)"
    and "CHR '';'' \<notin> set a" and "6 \<le> length a"
  shows "\<exists>p1 p2 tok. pre = p1 @ p2 \<and> p2 \<noteq> [] \<and>
           matchReturn (p2 @ a @ CHR '';'' # post) = Some (tok, post) \<and>
           replaceTokenRe f (pre @ a @ CHR '';'' # post) =
             replaceTokenRe f p1 @ f tok @ replaceTokenRe f post"
proof -
  let ?y = "a @ CHR '';'' # post"
  from scan_overrun [OF assms(1)] obtain p1 p2 tok r where
    p: "pre = p1 @ p2" "p2 \<noteq> []" "scanArrives p1 (p2 @ ?y)"
      "matchReturn (p2 @ ?y) = Some (tok, r)" "length r < length ?y"
    by blast
  from overrun_ends_at_semicolon [OF p(4,5) assms(2,3)] have r: "r = post" .
  obtain c cs where c: "p2 @ ?y = c # cs" using p(2) by (cases p2) auto
  have "replaceTokenRe f (p2 @ ?y) = f tok @ replaceTokenRe f post"
    using p(4) unfolding c r by (simp only: replaceTokenRe.simps(2) option.case prod.case)
  moreover have "replaceTokenRe f (p1 @ p2 @ ?y) = replaceTokenRe f p1 @ replaceTokenRe f (p2 @ ?y)"
    using p(3) by (rule replaceTokenRe_arrives)
  ultimately have "replaceTokenRe f (pre @ ?y) = replaceTokenRe f p1 @ f tok @ replaceTokenRe f post"
    unfolding p(1) by simp
  with p(1,2,4) r show ?thesis by blast
qed

subsection \<open>The renamings create no \<^verbatim>\<open>return\<close>\<close>

lemma str_includes_sublist: "str_includes s p \<longleftrightarrow> sublist p s"
  by (induction s) (simp_all add: sublist_Cons_right)


lemma yytext_step:
  assumes "prefix (x # q) (replace_yytext s)" and "x \<noteq> CHR ''t''"
  shows "\<exists>cs. s = x # cs \<and> prefix q (replace_yytext cs)"
proof (cases s)
  case Nil
  with assms show ?thesis by simp
next
  case (Cons c cs)
  show ?thesis
  proof (cases "prefix ''yytext'' (c # cs)")
    case True
    then have "replace_yytext s = ''tokenizer.yytext'' @ replace_yytext (drop 5 cs)"
      unfolding Cons by (simp only: replace_yytext.simps if_True)
    with assms show ?thesis by simp
  next
    case False
    then have "replace_yytext s = c # replace_yytext cs"
      unfolding Cons by (simp only: replace_yytext.simps if_False)
    with assms Cons show ?thesis by simp
  qed
qed

lemma yytext_step_t:
  assumes "prefix (CHR ''t'' # x # q) (replace_yytext s)" and "x \<noteq> CHR ''o''"
  shows "\<exists>cs. s = CHR ''t'' # cs \<and> prefix (x # q) (replace_yytext cs)"
proof (cases s)
  case Nil
  with assms show ?thesis by simp
next
  case (Cons c cs)
  show ?thesis
  proof (cases "prefix ''yytext'' (c # cs)")
    case True
    then have "replace_yytext s = ''tokenizer.yytext'' @ replace_yytext (drop 5 cs)"
      unfolding Cons by (simp only: replace_yytext.simps if_True)
    with assms show ?thesis by simp
  next
    case False
    then have "replace_yytext s = c # replace_yytext cs"
      unfolding Cons by (simp only: replace_yytext.simps if_False)
    with assms Cons show ?thesis by simp
  qed
qed

lemma yytext_prefix_return:
  assumes "prefix ''return'' (replace_yytext s)"
  shows "prefix ''return'' s"
proof -
  from yytext_step [of "CHR ''r''" "''eturn''" s] assms
  obtain s1 where s1: "s = CHR ''r'' # s1" "prefix ''eturn'' (replace_yytext s1)" by auto
  from yytext_step [of "CHR ''e''" "''turn''" s1] s1(2)
  obtain s2 where s2: "s1 = CHR ''e'' # s2" "prefix ''turn'' (replace_yytext s2)" by auto
  from yytext_step_t [of "CHR ''u''" "''rn''" s2] s2(2)
  obtain s3 where s3: "s2 = CHR ''t'' # s3" "prefix ''urn'' (replace_yytext s3)" by auto
  from yytext_step [of "CHR ''u''" "''rn''" s3] s3(2)
  obtain s4 where s4: "s3 = CHR ''u'' # s4" "prefix ''rn'' (replace_yytext s4)" by auto
  from yytext_step [of "CHR ''r''" "''n''" s4] s4(2)
  obtain s5 where s5: "s4 = CHR ''r'' # s5" "prefix ''n'' (replace_yytext s5)" by auto
  from yytext_step [of "CHR ''n''" "[]" s5] s5(2)
  obtain s6 where s6: "s5 = CHR ''n'' # s6" by auto
  show ?thesis unfolding s1(1) s2(1) s3(1) s4(1) s5(1) s6 by simp
qed

lemma underscores_step:
  assumes "prefix (x # q) (replace_underscores p s)" and "x \<noteq> CHR ''a''"
  shows "\<exists>cs. s = x # cs \<and> prefix q (replace_underscores (Some x) cs)"
proof (cases s)
  case Nil
  with assms show ?thesis by simp
next
  case (Cons c cs)
  let ?m = "(case p of None \<Rightarrow> True | Some q \<Rightarrow> \<not> isWord q) \<and> prefix ''__'' (c # cs) \<and>
         (case drop 1 cs of [] \<Rightarrow> True | d # _ \<Rightarrow> \<not> isWord d)"
  show ?thesis
  proof (cases ?m)
    case True
    then have "replace_underscores p s = ''auto __'' @ replace_underscores (Some (CHR ''_'')) (drop 1 cs)"
      unfolding Cons by (simp only: replace_underscores.simps if_True simp_thms)
    with assms show ?thesis by simp
  next
    case False
    then have "replace_underscores p s = c # replace_underscores (Some c) cs"
      unfolding Cons by (simp only: replace_underscores.simps if_False simp_thms)
    with assms Cons show ?thesis by simp
  qed
qed

lemma underscores_prefix_return:
  assumes "prefix ''return'' (replace_underscores p s)"
  shows "prefix ''return'' s"
proof -
  from underscores_step [of "CHR ''r''" "''eturn''" p s] assms
  obtain s1 where s1: "s = CHR ''r'' # s1" "prefix ''eturn'' (replace_underscores (Some (CHR ''r'')) s1)" by auto
  from underscores_step [of "CHR ''e''" "''turn''" _ s1] s1(2)
  obtain s2 where s2: "s1 = CHR ''e'' # s2" "prefix ''turn'' (replace_underscores (Some (CHR ''e'')) s2)" by auto
  from underscores_step [of "CHR ''t''" "''urn''" _ s2] s2(2)
  obtain s3 where s3: "s2 = CHR ''t'' # s3" "prefix ''urn'' (replace_underscores (Some (CHR ''t'')) s3)" by auto
  from underscores_step [of "CHR ''u''" "''rn''" _ s3] s3(2)
  obtain s4 where s4: "s3 = CHR ''u'' # s4" "prefix ''rn'' (replace_underscores (Some (CHR ''u'')) s4)" by auto
  from underscores_step [of "CHR ''r''" "''n''" _ s4] s4(2)
  obtain s5 where s5: "s4 = CHR ''r'' # s5" "prefix ''n'' (replace_underscores (Some (CHR ''r'')) s5)" by auto
  from underscores_step [of "CHR ''n''" "[]" _ s5] s5(2)
  obtain s6 where s6: "s5 = CHR ''n'' # s6" by auto
  show ?thesis unfolding s1(1) s2(1) s3(1) s4(1) s5(1) s6 by simp
qed

lemma sublist_drop: "\<not> sublist p s \<Longrightarrow> \<not> sublist p (drop n s)"
  by (metis append_take_drop_id sublist_append_leftI sublist_order.order_trans)

lemma yytext_no_return:
  "\<not> sublist ''return'' s \<Longrightarrow> \<not> sublist ''return'' (replace_yytext s)"
proof (induction s rule: replace_yytext.induct)
  case 1
  then show ?case by simp
next
  case (2 c cs)
  show ?case
  proof (cases "prefix ''yytext'' (c # cs)")
    case True
    then have r: "replace_yytext (c # cs) = ''tokenizer.yytext'' @ replace_yytext (drop 5 cs)"
      by (simp only: replace_yytext.simps if_True)
    from "2.prems" have "\<not> sublist ''return'' (drop 6 (c # cs))" by (rule sublist_drop)
    then have "\<not> sublist ''return'' (drop 5 cs)" by simp
    with "2.IH"(1) [OF True] have "\<not> sublist ''return'' (replace_yytext (drop 5 cs))" by simp
    then show ?thesis unfolding r by (simp add: sublist_Cons_right)
  next
    case False
    then have r: "replace_yytext (c # cs) = c # replace_yytext cs"
      by (simp only: replace_yytext.simps if_False)
    from "2.prems" have "\<not> (prefix ''return'' (c # cs) \<or> sublist ''return'' cs)"
      by (simp only: sublist_Cons_right simp_thms)
    then have "\<not> sublist ''return'' cs" and np: "\<not> prefix ''return'' (c # cs)"
      by blast+
    with "2.IH"(2) [OF False] have ih: "\<not> sublist ''return'' (replace_yytext cs)" by simp
    have "\<not> prefix ''return'' (replace_yytext (c # cs))"
      using np yytext_prefix_return by blast
    with ih show ?thesis unfolding r by (simp only: sublist_Cons_right de_Morgan_disj simp_thms)
  qed
qed

lemma underscores_no_return:
  "\<not> sublist ''return'' s \<Longrightarrow> \<not> sublist ''return'' (replace_underscores p s)"
proof (induction p s rule: replace_underscores.induct)
  case (1 p)
  then show ?case by simp
next
  case (2 p c cs)
  let ?m = "(case p of None \<Rightarrow> True | Some q \<Rightarrow> \<not> isWord q) \<and> prefix ''__'' (c # cs) \<and>
         (case drop 1 cs of [] \<Rightarrow> True | d # _ \<Rightarrow> \<not> isWord d)"
  show ?case
  proof (cases ?m)
    case True
    then have r: "replace_underscores p (c # cs) =
        ''auto __'' @ replace_underscores (Some (CHR ''_'')) (drop 1 cs)"
      by (simp only: replace_underscores.simps if_True simp_thms)
    from "2.prems" have "\<not> sublist ''return'' (drop 2 (c # cs))" by (rule sublist_drop)
    then have "\<not> sublist ''return'' (drop 1 cs)" by simp
    with "2.IH"(1) [OF True] have "\<not> sublist ''return'' (replace_underscores (Some (CHR ''_'')) (drop 1 cs))"
      by simp
    then show ?thesis unfolding r by (simp add: sublist_Cons_right)
  next
    case False
    then have r: "replace_underscores p (c # cs) = c # replace_underscores (Some c) cs"
      by (simp only: replace_underscores.simps if_False simp_thms)
    from "2.prems" have "\<not> (prefix ''return'' (c # cs) \<or> sublist ''return'' cs)"
      by (simp only: sublist_Cons_right simp_thms)
    then have "\<not> sublist ''return'' cs" and np: "\<not> prefix ''return'' (c # cs)"
      by blast+
    with "2.IH"(2) [OF False] have ih: "\<not> sublist ''return'' (replace_underscores (Some c) cs)" by simp
    have "\<not> prefix ''return'' (replace_underscores p (c # cs))"
      using np underscores_prefix_return by blast
    with ih show ?thesis unfolding r by (simp only: sublist_Cons_right de_Morgan_disj simp_thms)
  qed
qed

lemma replaceTokenRe_no_return:
  "\<not> sublist ''return'' s \<Longrightarrow> replaceTokenRe f s = s"
proof (induction s)
  case Nil
  then show ?case by simp
next
  case (Cons c cs)
  then have "\<not> (prefix ''return'' (c # cs) \<or> sublist ''return'' cs)"
    by (simp only: sublist_Cons_right simp_thms)
  then have "\<not> sublist ''return'' cs" and np: "\<not> prefix ''return'' (c # cs)"
    by blast+
  from np have "matchReturn (c # cs) = None" by (simp only: matchReturn_def if_False)
  then have "replaceTokenRe f (c # cs) = c # replaceTokenRe f cs"
    by (simp only: replaceTokenRe.simps(2) option.case)
  with Cons.IH \<open>\<not> sublist ''return'' cs\<close> show ?case by simp
qed

subsection \<open>A handler with \<^verbatim>\<open>return\<close> in front\<close>

lemma no_straddle_last:
  assumes "\<not> sublist p u" and "\<not> sublist p v" and "u = [] \<or> last u \<notin> set p"
  shows "\<not> sublist p (u @ v)"
proof
  assume "sublist p (u @ v)"
  then have "sublist p u \<or> sublist p v \<or>
      (\<exists>xs1 xs2. p = xs1 @ xs2 \<and> suffix xs1 u \<and> prefix xs2 v)"
    by (simp only: sublist_append)
  with assms(1,2) have "\<exists>xs1 xs2. p = xs1 @ xs2 \<and> suffix xs1 u \<and> prefix xs2 v"
    by (simp only: simp_thms)
  then obtain xs1 xs2 where p: "p = xs1 @ xs2" and s: "suffix xs1 u" and x: "prefix xs2 v"
    by (elim exE conjE)
  have ne: "xs1 \<noteq> []"
  proof
    assume "xs1 = []"
    with p x have "prefix p v" by simp
    then have "sublist p v" by (rule prefix_imp_sublist)
    with assms(2) show False by simp
  qed
  from s obtain zs where u: "u = zs @ xs1" by (elim suffixE)
  from ne have "last u = last xs1" and "u \<noteq> []" unfolding u by simp_all
  moreover from ne have "last xs1 \<in> set p" unfolding p by simp
  ultimately show False using assms(3) by simp
qed

lemma no_straddle_hd:
  assumes "\<not> sublist p u" and "\<not> sublist p v" and "v = [] \<or> hd v \<notin> set p"
  shows "\<not> sublist p (u @ v)"
proof
  assume "sublist p (u @ v)"
  then have "sublist p u \<or> sublist p v \<or>
      (\<exists>xs1 xs2. p = xs1 @ xs2 \<and> suffix xs1 u \<and> prefix xs2 v)"
    by (simp only: sublist_append)
  with assms(1,2) have "\<exists>xs1 xs2. p = xs1 @ xs2 \<and> suffix xs1 u \<and> prefix xs2 v"
    by (simp only: simp_thms)
  then obtain xs1 xs2 where p: "p = xs1 @ xs2" and s: "suffix xs1 u" and x: "prefix xs2 v"
    by (elim exE conjE)
  have ne: "xs2 \<noteq> []"
  proof
    assume "xs2 = []"
    with p s have "suffix p u" by simp
    then have "sublist p u" by (rule suffix_imp_sublist)
    with assms(1) show False by simp
  qed
  from x obtain zs where v: "v = xs2 @ zs" by (elim prefixE)
  from ne have "hd v = hd xs2" and "v \<noteq> []" unfolding v by simp_all
  moreover from ne have "hd xs2 \<in> set p" unfolding p by simp
  ultimately show False using assms(3) by simp
qed

lemma digit_char_not_r: "m < 10 \<Longrightarrow> digit_char m \<noteq> CHR ''r''"
proof
  assume m: "m < 10" and "digit_char m = CHR ''r''"
  then have "(of_char (digit_char m) :: nat) = of_char (CHR ''r'')" by (simp only:)
  then have "48 + m = 114" by (simp only: digit_char_code [OF m]) simp
  with m show False by simp
qed

lemma show_nat_no_r: "CHR ''r'' \<notin> set (show_nat n)"
proof (induction n rule: show_nat.induct)
  case (1 n)
  show ?case
  proof (cases "n < 10")
    case True
    then show ?thesis using digit_char_not_r [of n] by (simp add: show_nat_small)
  next
    case False
    have "n mod 10 < 10" by simp
    from digit_char_not_r [OF this] "1.IH" [OF False] show ?thesis
      by (simp add: show_nat_large [OF False])
  qed
qed

lemma show_nat_no_return: "\<not> sublist ''return'' (show_nat n)"
proof
  assume "sublist ''return'' (show_nat n)"
  then have "set ''return'' \<subseteq> set (show_nat n)" by (rule set_mono_sublist)
  moreover have "CHR ''r'' \<in> set ''return''" by simp
  ultimately have "CHR ''r'' \<in> set (show_nat n)" by (rule subsetD)
  with show_nat_no_r show False by blast
qed

lemma stripQuotes_sublist: "sublist (stripQuotes t) t"
proof -
  define t1 where "t1 = (case t of [] \<Rightarrow> [] | c # cs \<Rightarrow> if isQuote c then cs else c # cs)"
  have a: "sublist t1 t" unfolding t1_def by (cases t) (auto intro: sublist_Cons_right [THEN iffD2])
  have "sublist (butlast t1) t1"
    by (metis append_butlast_last_id butlast.simps(1) sublist_append_rightI sublist_order.order_refl)
  then have "sublist (if t1 \<noteq> [] \<and> isQuote (last t1) then butlast t1 else t1) t1" by simp
  then have "sublist (stripQuotes t) t1" by (simp add: stripQuotes_def Let_def t1_def)
  from this a show ?thesis by (rule sublist_order.order_trans)
qed

lemma matchReturn_parts:
  assumes "matchReturn s = Some (tok, rest)"
  shows "sublist tok (drop 6 s)" and "suffix rest (drop 6 s)"
proof -
  let ?r = "drop 6 s"
  let ?B = "takeWhile (\<lambda>c. c \<noteq> CHR '';'') ?r"
  let ?D = "dropWhile (\<lambda>c. c \<noteq> CHR '';'') ?r"
  let ?W = "takeWhile isSpace ?r"
  from assms have tok: "tok = (if length ?W < length ?B then drop (length ?W) ?B else [last ?B])"
    and rest: "rest = tl ?D" and ne: "?D \<noteq> []" and len: "\<not> length ?B < 2"
    by (auto simp: matchReturn_def Let_def split: if_splits)
  have r: "?r = ?B @ ?D" by simp
  have "suffix (tl ?D) ?D" by (metis suffix_tl)
  moreover have "suffix ?D ?r" by (metis r suffixI)
  ultimately show "suffix rest ?r" unfolding rest by (rule suffix_order.order_trans)
  have "sublist (drop (length ?W) ?B) ?B"
    by (metis append_take_drop_id sublist_append_leftI)
  moreover have "sublist [last ?B] ?B"
  proof -
    from len have "?B \<noteq> []" by auto
    then have "?B = butlast ?B @ [last ?B]" by simp
    then show ?thesis by (metis sublist_append_leftI)
  qed
  ultimately have "sublist tok ?B" unfolding tok by simp
  moreover have "sublist ?B ?r" by (metis r sublist_append_rightI)
  ultimately show "sublist tok ?r" by (rule sublist_order.order_trans)
qed

lemma returnToken_shape:
  assumes "\<not> sublist ''return'' tok"
  shows "\<exists>X. returnToken tm tok = ''return TokenType::'' @ X @ '';'' \<and> \<not> sublist ''return'' X"
proof -
  let ?t = "stripQuotes tok"
  have st: "\<not> sublist ''return'' ?t"
    using assms stripQuotes_sublist sublist_order.order_trans by blast
  consider "?t = ''%empty'' \<or> ?t = ''nullptr'' \<or> ?t = ''NULL''"
    | n where "\<not> (?t = ''%empty'' \<or> ?t = ''nullptr'' \<or> ?t = ''NULL'')" "tm ?t = Some n"
    | "\<not> (?t = ''%empty'' \<or> ?t = ''nullptr'' \<or> ?t = ''NULL'')" "tm ?t = None"
    by (cases "tm ?t") auto
  then show ?thesis
  proof cases
    case 1
    then have "returnToken tm tok = ''return TokenType::'' @ ''__EMPTY'' @ '';''"
      by (simp add: returnToken_def Let_def)
    moreover have "\<not> sublist ''return'' ''__EMPTY''" by (simp add: sublist_Cons_right)
    ultimately show ?thesis by blast
  next
    case 2
    then have "returnToken tm tok = ''return TokenType::'' @ (''TOKEN_TYPE_'' @ show_nat n) @ '';''"
      by (simp add: returnToken_def Let_def)
    moreover have "\<not> sublist ''return'' (''TOKEN_TYPE_'' @ show_nat n)"
      by (rule no_straddle_last) (simp_all add: sublist_Cons_right show_nat_no_return)
    ultimately show ?thesis by blast
  next
    case 3
    then have "returnToken tm tok = ''return TokenType::'' @ ?t @ '';''"
      by (simp add: returnToken_def Let_def)
    with st show ?thesis by blast
  qed
qed

lemma replaceTokenRe_leading:
  assumes k: "\<not> sublist ''return'' k"
  shows "\<exists>b. replaceTokenRe (returnToken tm) (''return '' @ k) = ''return'' @ b \<and>
             \<not> sublist ''return'' b"
proof (cases "matchReturn (''return '' @ k)")
  case None
  have e: "\<not> sublist ''return'' (''eturn '' @ k)"
    using k by (simp add: sublist_Cons_right)
  have "replaceTokenRe (returnToken tm) (''return '' @ k) =
      CHR ''r'' # replaceTokenRe (returnToken tm) (''eturn '' @ k)"
    using None by (simp del: replaceTokenRe.simps add: replaceTokenRe.simps(2) [of _ "CHR ''r''"])
  also have "\<dots> = ''return'' @ ('' '' @ k)"
    by (simp only: replaceTokenRe_no_return [OF e]) simp
  finally show ?thesis using k by (intro exI [of _ "'' '' @ k"]) (simp add: sublist_Cons_right)
next
  case (Some tr)
  obtain tok rest where tr: "tr = (tok, rest)" by (cases tr)
  have sk: "\<not> sublist ''return'' ('' '' @ k)"
    using k by (simp add: sublist_Cons_right)
  from matchReturn_parts [OF Some [unfolded tr]]
  have "sublist tok ('' '' @ k)" and "suffix rest ('' '' @ k)" by simp_all
  then have nt: "\<not> sublist ''return'' tok" and nr: "\<not> sublist ''return'' rest"
    using sk by (meson sublist_order.order_trans suffix_imp_sublist)+
  from returnToken_shape [OF nt, of tm] obtain X where
    X: "returnToken tm tok = ''return TokenType::'' @ X @ '';''" and nx: "\<not> sublist ''return'' X"
    by blast
  have "replaceTokenRe (returnToken tm) (''return '' @ k) =
      returnToken tm tok @ replaceTokenRe (returnToken tm) rest"
    using Some tr by (simp del: replaceTokenRe.simps add: replaceTokenRe.simps(2) [of _ "CHR ''r''"])
  also have "\<dots> = ''return'' @ ('' TokenType::'' @ X @ '';'' @ rest)"
    by (simp only: replaceTokenRe_no_return [OF nr] X) simp
  finally have o: "replaceTokenRe (returnToken tm) (''return '' @ k) =
      ''return'' @ ('' TokenType::'' @ X @ '';'' @ rest)" .
  have semi: "\<not> sublist ''return'' ('';'' @ rest)"
    using nr by (simp add: sublist_Cons_right)
  have xr: "\<not> sublist ''return'' (X @ '';'' @ rest)"
    by (rule no_straddle_hd [OF nx semi]) simp
  have tt: "\<not> sublist ''return'' '' TokenType::''" by (simp add: sublist_Cons_right)
  have "\<not> sublist ''return'' ('' TokenType::'' @ (X @ '';'' @ rest))"
    by (rule no_straddle_last [OF tt xr]) simp
  with o show ?thesis by (intro exI [of _ "'' TokenType::'' @ X @ '';'' @ rest"]) simp
qed

lemma trim_empty_iff: "trim s = [] \<longleftrightarrow> list_all isSpace s"
proof -
  have "dropWhile isSpace (rev (dropWhile isSpace s)) = [] \<longleftrightarrow> dropWhile isSpace s = []"
  proof (cases "dropWhile isSpace s")
    case Nil
    show ?thesis unfolding Nil by simp
  next
    case (Cons c cs)
    then have "\<not> isSpace c" by (metis hd_dropWhile list.sel(1) list.simps(3))
    then have "dropWhile isSpace (rev cs @ [c]) \<noteq> []"
      by (simp add: dropWhile_append)
    with Cons show ?thesis by simp
  qed
  then have "trim s = [] \<longleftrightarrow> dropWhile isSpace s = []" by (simp add: trim_def)
  also have "\<dots> \<longleftrightarrow> list_all isSpace s" by (simp add: dropWhile_eq_Nil_conv list_all_iff)
  finally show ?thesis .
qed


lemma trim_return: "trim (''return'' @ b) = ''return'' @ rev (dropWhile isSpace (rev b))"
proof -
  have "dropWhile isSpace (''return'' @ b) = ''return'' @ b" by (simp add: isSpace_def)
  moreover have "dropWhile isSpace (rev b @ ''nruter'') = dropWhile isSpace (rev b) @ ''nruter''"
    by (simp add: dropWhile_append isSpace_def)
  ultimately show ?thesis by (simp add: trim_def)
qed

lemma trimEnd_sublist: "sublist (rev (dropWhile P (rev b))) b"
proof -
  have "rev b = takeWhile P (rev b) @ dropWhile P (rev b)" by simp
  then have "rev (rev b) = rev (takeWhile P (rev b) @ dropWhile P (rev b))" by (simp only:)
  then have "b = rev (dropWhile P (rev b)) @ rev (takeWhile P (rev b))" by (simp only: rev_rev_ident rev_append)
  then show ?thesis by (metis sublist_append_rightI)
qed

lemma yytext_return: "replace_yytext (''return '' @ s) = ''return '' @ replace_yytext s"
  by simp

lemma underscores_return:
  "replace_underscores None (''return '' @ s) = ''return '' @ replace_underscores (Some (CHR '' '')) s"
  by simp

lemma lex_action_leading:
  assumes h: "\<not> sublist ''return'' h"
  shows "\<exists>b. actionFromHandler tm (''return '' @ h) = ''return'' @ b \<and> \<not> sublist ''return'' b"
proof -
  define h2 where "h2 = (if \<not> endsWithSemicolon (''return '' @ h) then h @ '';'' else h)"
  have "\<not> sublist ''return'' '';''" by (simp add: sublist_Cons_right)
  from no_straddle_hd [OF h this] have "\<not> sublist ''return'' (h @ '';'')" by simp
  with h have h2: "\<not> sublist ''return'' h2" by (simp add: h2_def)
  define k where "k = replace_underscores (Some (CHR '' '')) (replace_yytext h2)"
  have k: "\<not> sublist ''return'' k"
    unfolding k_def using h2 by (intro underscores_no_return yytext_no_return)
  have src: "(if \<not> endsWithSemicolon (''return '' @ h) then (''return '' @ h) @ '';'' else ''return '' @ h) =
      ''return '' @ h2"
    by (simp add: h2_def)
  have "scopeVars tm (''return '' @ h2) = replaceTokenRe (returnToken tm) (''return '' @ k)"
    by (simp only: scopeVars_def yytext_return underscores_return k_def)
  with replaceTokenRe_leading [OF k, of tm] obtain b where
    b: "scopeVars tm (''return '' @ h2) = ''return'' @ b" and nb: "\<not> sublist ''return'' b"
    by auto
  let ?b = "rev (dropWhile isSpace (rev b))"
  have t: "trim (scopeVars tm (''return '' @ h2)) = ''return'' @ ?b"
    by (simp only: b trim_return)
  have "actionFromHandler tm (''return '' @ h) = ''return'' @ ?b"
    unfolding actionFromHandler_def src Let_def t by simp
  moreover have "\<not> sublist ''return'' ?b"
    using nb trimEnd_sublist sublist_order.order_trans by blast
  ultimately show ?thesis by blast
qed

lemma occurrences_leading:
  "\<not> sublist ''return'' b \<Longrightarrow> occurrences ''return'' (''return'' @ b) = 1"
  by (simp add: occurrences_zero str_includes_sublist)

subsection \<open>The rewriting of a text that is not blank\<close>

lemma yytext_set: "set s \<subseteq> set (replace_yytext s)"
proof (induction s rule: replace_yytext.induct)
  case 1
  then show ?case by simp
next
  case (2 c cs)
  show ?case
  proof (cases "prefix ''yytext'' (c # cs)")
    case True
    then have r: "replace_yytext (c # cs) = ''tokenizer.yytext'' @ replace_yytext (drop 5 cs)"
      by (simp only: replace_yytext.simps if_True)
    from True obtain zs where z: "c # cs = ''yytext'' @ zs" by (elim prefixE)
    then have "drop 5 cs = zs" by simp
    with "2.IH"(1) [OF True] have ih: "set zs \<subseteq> set (replace_yytext (drop 5 cs))" by simp
    have "set (c # cs) = set ''yytext'' \<union> set zs" by (simp only: z set_append)
    moreover have "set (replace_yytext (c # cs)) =
        set ''tokenizer.yytext'' \<union> set (replace_yytext (drop 5 cs))"
      by (simp only: r set_append)
    moreover have "set ''yytext'' \<subseteq> set ''tokenizer.yytext''" by simp
    ultimately show ?thesis using ih by blast
  next
    case False
    then have r: "replace_yytext (c # cs) = c # replace_yytext cs"
      by (simp only: replace_yytext.simps if_False)
    from "2.IH"(2) [OF False] show ?thesis unfolding r by auto
  qed
qed

lemma underscores_set: "set s \<subseteq> set (replace_underscores p s)"
proof (induction p s rule: replace_underscores.induct)
  case (1 p)
  then show ?case by simp
next
  case (2 p c cs)
  let ?m = "(case p of None \<Rightarrow> True | Some q \<Rightarrow> \<not> isWord q) \<and> prefix ''__'' (c # cs) \<and>
         (case drop 1 cs of [] \<Rightarrow> True | d # _ \<Rightarrow> \<not> isWord d)"
  show ?case
  proof (cases ?m)
    case True
    then have r: "replace_underscores p (c # cs) =
        ''auto __'' @ replace_underscores (Some (CHR ''_'')) (drop 1 cs)"
      by (simp only: replace_underscores.simps if_True simp_thms)
    from True have "prefix ''__'' (c # cs)" by blast
    then obtain zs where z: "c # cs = ''__'' @ zs" by (elim prefixE)
    then have "drop 1 cs = zs" by simp
    with "2.IH"(1) [OF True]
    have ih: "set zs \<subseteq> set (replace_underscores (Some (CHR ''_'')) (drop 1 cs))"
      by simp
    have "set (c # cs) = set ''__'' \<union> set zs" by (simp only: z set_append)
    moreover have "set (replace_underscores p (c # cs)) =
        set ''auto __'' \<union> set (replace_underscores (Some (CHR ''_'')) (drop 1 cs))"
      by (simp only: r set_append)
    moreover have "set ''__'' \<subseteq> set ''auto __''" by simp
    ultimately show ?thesis using ih by blast
  next
    case False
    then have r: "replace_underscores p (c # cs) = c # replace_underscores (Some c) cs"
      by (simp only: replace_underscores.simps if_False simp_thms)
    from "2.IH"(2) [OF False] show ?thesis unfolding r by auto
  qed
qed

lemma replaceTokenRe_nonblank:
  "\<forall>t. \<not> list_all isSpace (f t) \<Longrightarrow> \<not> list_all isSpace s \<Longrightarrow>
   \<not> list_all isSpace (replaceTokenRe f s)"
proof (induction f s rule: replaceTokenRe.induct)
  case (1 f)
  then show ?case by simp
next
  case (2 f c cs)
  show ?case
  proof (cases "matchReturn (c # cs)")
    case None
    then have r: "replaceTokenRe f (c # cs) = c # replaceTokenRe f cs"
      by (simp only: replaceTokenRe.simps(2) option.case)
    show ?thesis
    proof (cases "isSpace c")
      case True
      with "2.prems"(2) have "\<not> list_all isSpace cs" by simp
      with "2.IH"(1) [OF None "2.prems"(1)] show ?thesis unfolding r by simp
    next
      case False
      then show ?thesis unfolding r by simp
    qed
  next
    case (Some tr)
    obtain t r where tr: "tr = (t, r)" by (cases tr)
    have e: "replaceTokenRe f (c # cs) = f t @ replaceTokenRe f r"
      using Some tr by (simp only: replaceTokenRe.simps(2) option.case prod.case)
    show ?thesis unfolding e using "2.prems"(1) by simp
  qed
qed

lemma returnToken_nonblank: "\<not> list_all isSpace (returnToken tm t)"
  by (simp add: returnToken_def Let_def isSpace_def split: option.split)

lemma scopeVars_nonblank:
  assumes "\<not> list_all isSpace code"
  shows "\<not> list_all isSpace (scopeVars tm code)"
proof -
  from assms obtain c where c: "c \<in> set code" "\<not> isSpace c" by (auto simp: list_all_iff)
  with yytext_set [of code] have "c \<in> set (replace_yytext code)" by blast
  with underscores_set [of "replace_yytext code" None]
  have "c \<in> set (replace_underscores None (replace_yytext code))" by blast
  with c(2) have "\<not> list_all isSpace (replace_underscores None (replace_yytext code))"
    by (auto simp: list_all_iff)
  then show ?thesis
    unfolding scopeVars_def by (intro replaceTokenRe_nonblank allI returnToken_nonblank)
qed

lemma actionFromHandler_nonblank:
  assumes "\<not> list_all isSpace h"
  shows "actionFromHandler tm h = trim (scopeVars tm (if endsWithSemicolon h then h else h @ '';''))"
proof -
  define code where "code = (if endsWithSemicolon h then h else h @ '';'')"
  from assms have "\<not> list_all isSpace code" by (simp add: code_def)
  then have "\<not> list_all isSpace (scopeVars tm code)" by (rule scopeVars_nonblank)
  then have ne: "trim (scopeVars tm code) \<noteq> []"
    by (simp only: trim_empty_iff simp_thms)
  have c: "(if \<not> endsWithSemicolon h then h @ '';'' else h) = code" by (simp add: code_def)
  have "actionFromHandler tm h = trim (scopeVars tm code)"
    unfolding actionFromHandler_def c Let_def using ne by simp
  then show ?thesis by (simp only: code_def)
qed

subsection \<open>Return statements\<close>

lemma scopeVars_statement:
  assumes "replace_underscores None (replace_yytext code) = pre @ ''return'' @ ws @ v @ '';'' @ post"
    and "scanArrives pre (''return'' @ ws @ v @ '';'' @ post)"
    and "ws \<noteq> []" and "list_all isSpace ws" and "v \<noteq> []" and "\<not> isSpace (hd v)"
    and "CHR '';'' \<notin> set v"
  shows "scopeVars tm code =
           replaceTokenRe (returnToken tm) pre @ returnToken tm v @ replaceTokenRe (returnToken tm) post"
proof -
  define y where "y = ''return'' @ ws @ v @ '';'' @ post"
  have m: "matchReturn y = Some (v, post)"
    unfolding y_def using assms(3-7) by (rule matchReturn_statement)
  obtain c cs where y: "y = c # cs" by (cases y) (simp_all add: y_def)
  have "replaceTokenRe (returnToken tm) y = returnToken tm v @ replaceTokenRe (returnToken tm) post"
    using m unfolding y by (simp only: replaceTokenRe.simps(2) option.case prod.case)
  moreover have "replaceTokenRe (returnToken tm) (pre @ y) =
      replaceTokenRe (returnToken tm) pre @ replaceTokenRe (returnToken tm) y"
    using assms(2) unfolding y_def by (rule replaceTokenRe_arrives)
  moreover have "scopeVars tm code = replaceTokenRe (returnToken tm) (pre @ y)"
    unfolding scopeVars_def assms(1) y_def ..
  ultimately show ?thesis by simp
qed

lemma statement_in_handler:
  assumes "replace_underscores None (replace_yytext code) = pre @ ''return'' @ rest"
    and "(if endsWithSemicolon h then h else h @ '';'') = code"
  shows "sublist ''return'' h"
proof (rule ccontr)
  assume h: "\<not> sublist ''return'' h"
  have "\<not> sublist ''return'' '';''" by (simp add: sublist_Cons_right)
  from no_straddle_hd [OF h this] have "\<not> sublist ''return'' (h @ '';'')" by simp
  with h have "\<not> sublist ''return'' code" unfolding assms(2) [symmetric] by simp
  then have "\<not> sublist ''return'' (replace_underscores None (replace_yytext code))"
    by (intro underscores_no_return yytext_no_return)
  then show False unfolding assms(1) by (simp only: sublist_appendI simp_thms)
qed

lemma sublist_return_nonblank: "sublist ''return'' h \<Longrightarrow> \<not> list_all isSpace h"
proof -
  assume "sublist ''return'' h"
  then have "set ''return'' \<subseteq> set h" by (rule set_mono_sublist)
  moreover have "CHR ''r'' \<in> set ''return''" by simp
  ultimately have "CHR ''r'' \<in> set h" by (rule subsetD)
  moreover have "\<not> isSpace (CHR ''r'')" by (simp add: isSpace_def)
  ultimately show ?thesis by (auto simp: list_all_iff)
qed

text \<open>
  Claim C5, as amended. Take a handler body in which, once \<^verbatim>\<open>yytext\<close> and
  \<^verbatim>\<open>__\<close> are renamed, a statement \<^verbatim>\<open>return <value>;\<close> stands:
  \<^verbatim>\<open>return\<close>, white space, a value without a semicolon that does not start with
  white space, and the semicolon. Let the scan of the third replacement arrive at the
  statement: no earlier \<^verbatim>\<open>return\<close> followed by white space, be it in a comment, takes
  the text up to the statement's semicolon as its own value. If the value, with its quotes
  stripped, is \<^verbatim>\<open>%empty\<close>, \<^verbatim>\<open>nullptr\<close> or \<^verbatim>\<open>NULL\<close>, the statement is
  rewritten to \<^verbatim>\<open>return TokenType::__EMPTY;\<close>, whatever the terminals map holds. If
  it is another string, one that the terminals map records with a code, the statement is
  rewritten to \<^verbatim>\<open>return TokenType::TOKEN_TYPE_<code>;\<close>. The text before and the
  text behind the statement are rewritten on their own. A statement at which the scan does
  not arrive is not rewritten as a statement: a match that starts before it ends at its
  semicolon, and the statement is part of the value of that match.
\<close>

theorem scopeVars_special_returns:
  assumes "replace_underscores None (replace_yytext code) = pre @ ''return'' @ ws @ v @ '';'' @ post"
    and "ws \<noteq> []" and "list_all isSpace ws" and "v \<noteq> []" and "\<not> isSpace (hd v)"
    and "CHR '';'' \<notin> set v"
  shows "(scanArrives pre (''return'' @ ws @ v @ '';'' @ post) \<longrightarrow>
            (stripQuotes v \<in> {''%empty'', ''nullptr'', ''NULL''} \<longrightarrow>
               scopeVars tm code =
                 replaceTokenRe (returnToken tm) pre @ ''return TokenType::__EMPTY;'' @
                 replaceTokenRe (returnToken tm) post)
            \<and> (stripQuotes v \<notin> {''%empty'', ''nullptr'', ''NULL''} \<and> tm (stripQuotes v) = Some n \<longrightarrow>
               scopeVars tm code =
                 replaceTokenRe (returnToken tm) pre @
                 ''return TokenType::TOKEN_TYPE_'' @ show_nat n @ '';'' @
                 replaceTokenRe (returnToken tm) post))
         \<and> (\<not> scanArrives pre (''return'' @ ws @ v @ '';'' @ post) \<longrightarrow>
            (\<exists>p1 p2 tok.
               pre = p1 @ p2 \<and> p2 \<noteq> [] \<and>
               matchReturn (p2 @ ''return'' @ ws @ v @ '';'' @ post) = Some (tok, post) \<and>
               scopeVars tm code =
                 replaceTokenRe (returnToken tm) p1 @ returnToken tm tok @
                 replaceTokenRe (returnToken tm) post))"
proof -
  let ?y = "''return'' @ ws @ v @ '';'' @ post"
  have arrives: "(stripQuotes v \<in> {''%empty'', ''nullptr'', ''NULL''} \<longrightarrow>
               scopeVars tm code =
                 replaceTokenRe (returnToken tm) pre @ ''return TokenType::__EMPTY;'' @
                 replaceTokenRe (returnToken tm) post)
            \<and> (stripQuotes v \<notin> {''%empty'', ''nullptr'', ''NULL''} \<and> tm (stripQuotes v) = Some n \<longrightarrow>
               scopeVars tm code =
                 replaceTokenRe (returnToken tm) pre @
                 ''return TokenType::TOKEN_TYPE_'' @ show_nat n @ '';'' @
                 replaceTokenRe (returnToken tm) post)"
    if "scanArrives pre ?y"
  proof -
    have "scopeVars tm code =
        replaceTokenRe (returnToken tm) pre @ returnToken tm v @ replaceTokenRe (returnToken tm) post"
      using assms(1) that assms(2-6) by (rule scopeVars_statement)
    moreover have "stripQuotes v \<in> {''%empty'', ''nullptr'', ''NULL''} \<Longrightarrow>
        returnToken tm v = ''return TokenType::__EMPTY;''"
      by (auto simp: returnToken_def Let_def)
    moreover have "stripQuotes v \<notin> {''%empty'', ''nullptr'', ''NULL''} \<Longrightarrow> tm (stripQuotes v) = Some n \<Longrightarrow>
        returnToken tm v = ''return TokenType::TOKEN_TYPE_'' @ show_nat n @ '';''"
      by (auto simp: returnToken_def Let_def)
    ultimately show ?thesis by simp
  qed
  have swallowed: "\<exists>p1 p2 tok.
               pre = p1 @ p2 \<and> p2 \<noteq> [] \<and>
               matchReturn (p2 @ ?y) = Some (tok, post) \<and>
               scopeVars tm code =
                 replaceTokenRe (returnToken tm) p1 @ returnToken tm tok @
                 replaceTokenRe (returnToken tm) post"
    if "\<not> scanArrives pre ?y"
  proof -
    define a where "a = ''return'' @ ws @ v"
    have y: "?y = a @ CHR '';'' # post" by (simp add: a_def)
    have "\<And>c. c \<in> set ws \<Longrightarrow> isSpace c" using assms(3) by (simp add: list_all_iff)
    then have "CHR '';'' \<notin> set ws" by (auto simp: isSpace_def)
    with assms(6) have a1: "CHR '';'' \<notin> set a" by (simp add: a_def)
    have a2: "6 \<le> length a" by (simp add: a_def)
    from that have "\<not> scanArrives pre (a @ CHR '';'' # post)" unfolding y .
    from replaceTokenRe_swallowed [OF this a1 a2, of "returnToken tm"]
    show ?thesis unfolding scopeVars_def assms(1) y .
  qed
  from arrives swallowed show ?thesis by blast
qed

theorem scopeVars_special_returns_witness:
  "scanArrives ''if (returnCode(tokenizer.yytext)) '' (''return '' @ [CHR 0x27] @ ''NULL'' @ [CHR 0x27] @ ''; x = 1;'')
   \<and> scopeVars [''+'' \<mapsto> 3] (''if (returnCode(yytext)) return '' @ [CHR 0x27] @ ''NULL'' @ [CHR 0x27] @ ''; x = 1;'') =
     ''if (returnCode(tokenizer.yytext)) return TokenType::__EMPTY; x = 1;''
   \<and> scanArrives ''auto __ = 1; return a; '' (''return  '' @ [CHR 0x22] @ ''+'' @ [CHR 0x22] @ '';'')
   \<and> scopeVars [''+'' \<mapsto> 3] (''__ = 1; return a; return  '' @ [CHR 0x22] @ ''+'' @ [CHR 0x22] @ '';'') =
     ''auto __ = 1; return TokenType::a; return TokenType::TOKEN_TYPE_3;''"
proof -
  have a1: "scanArrives ''if (returnCode(tokenizer.yytext)) '' (''return'' @ '' '' @ ([CHR 0x27] @ ''NULL'' @ [CHR 0x27]) @ '';'' @ '' x = 1;'')"
    by code_simp
  have a2: "scanArrives ''auto __ = 1; return a; '' (''return'' @ ''  '' @ ([CHR 0x22] @ ''+'' @ [CHR 0x22]) @ '';'' @ [])"
    by code_simp
  have c1: "replace_underscores None (replace_yytext
        (''if (returnCode(yytext)) return '' @ [CHR 0x27] @ ''NULL'' @ [CHR 0x27] @ ''; x = 1;'')) =
      ''if (returnCode(tokenizer.yytext)) '' @ ''return'' @ '' '' @ ([CHR 0x27] @ ''NULL'' @ [CHR 0x27]) @
      '';'' @ '' x = 1;''"
    by (simp add: isWord_def)
  have c2: "replace_underscores None (replace_yytext
        (''__ = 1; return a; return  '' @ [CHR 0x22] @ ''+'' @ [CHR 0x22] @ '';'')) =
      ''auto __ = 1; return a; '' @ ''return'' @ ''  '' @ ([CHR 0x22] @ ''+'' @ [CHR 0x22]) @ '';'' @ []"
    by (simp add: isWord_def)
  have w1: "'' '' \<noteq> []" "list_all isSpace '' ''" "[CHR 0x27] @ ''NULL'' @ [CHR 0x27] \<noteq> []"
    "\<not> isSpace (hd ([CHR 0x27] @ ''NULL'' @ [CHR 0x27]))" "CHR '';'' \<notin> set ([CHR 0x27] @ ''NULL'' @ [CHR 0x27])"
    by (simp_all add: isSpace_def)
  have w2: "''  '' \<noteq> []" "list_all isSpace ''  ''" "[CHR 0x22] @ ''+'' @ [CHR 0x22] \<noteq> []"
    "\<not> isSpace (hd ([CHR 0x22] @ ''+'' @ [CHR 0x22]))" "CHR '';'' \<notin> set ([CHR 0x22] @ ''+'' @ [CHR 0x22])"
    by (simp_all add: isSpace_def)
  from scopeVars_special_returns [OF c1 w1, of "[''+'' \<mapsto> 3]", THEN conjunct1, THEN mp, OF a1]
  have "scopeVars [''+'' \<mapsto> 3] (''if (returnCode(yytext)) return '' @ [CHR 0x27] @ ''NULL'' @ [CHR 0x27] @ ''; x = 1;'') =
     ''if (returnCode(tokenizer.yytext)) return TokenType::__EMPTY; x = 1;''"
    by (simp add: matchReturn_def stripQuotes_def isQuote_def)
  moreover from scopeVars_special_returns [OF c2 w2, of "[''+'' \<mapsto> 3]" 3, THEN conjunct1, THEN mp, OF a2]
  have "scopeVars [''+'' \<mapsto> 3] (''__ = 1; return a; return  '' @ [CHR 0x22] @ ''+'' @ [CHR 0x22] @ '';'') =
     ''auto __ = 1; return TokenType::a; return TokenType::TOKEN_TYPE_3;''"
    by (simp add: matchReturn_def isSpace_def stripQuotes_def isQuote_def returnToken_def
        show_nat.simps digit_char_def)
  ultimately show ?thesis using a1 a2 by simp
qed

theorem scopeVars_special_returns_counterexample:
  "(let code = ''// return early'' @ [CHR 0x0A] @ ''return NULL;'';
        pre = ''// return early'' @ [CHR 0x0A]
    in replace_underscores None (replace_yytext code) = pre @ ''return'' @ '' '' @ ''NULL'' @ '';'' @ []
       \<and> stripQuotes ''NULL'' = ''NULL''
       \<and> \<not> scanArrives pre (''return'' @ '' '' @ ''NULL'' @ '';'' @ [])
       \<and> scopeVars Map.empty code = ''// return TokenType::early'' @ [CHR 0x0A] @ ''return NULL;''
       \<and> scopeVars Map.empty code \<noteq>
           replaceTokenRe (returnToken Map.empty) pre @ ''return TokenType::__EMPTY;'' @
           replaceTokenRe (returnToken Map.empty) [])"
  by (simp add: scopeVars_def matchReturn_def returnToken_def stripQuotes_def isQuote_def isSpace_def
      isWord_def Let_def)

text \<open>
  Claim C9, as amended. Under the same reading of a \<^verbatim>\<open>return\<close> statement, at which
  the scan arrives, a value that, with one quote stripped from each end, is none of
  \<^verbatim>\<open>%empty\<close>, \<^verbatim>\<open>nullptr\<close>, \<^verbatim>\<open>NULL\<close> and no key of the terminals map is
  rewritten to \<^verbatim>\<open>return TokenType::<value>;\<close>, whatever expression it is. This is
  so for production actions and for lexical handlers: when the rewritten text is a handler
  with a semicolon added where it does not end in one, the action recorded for a production
  with that handler is the prologue, the rewritten and trimmed text and the epilogue, and the
  action recorded for a lexical rule with that handler is the rewritten and trimmed text.
\<close>

theorem scopeVars_other_returns:
  assumes "replace_underscores None (replace_yytext code) = pre @ ''return'' @ ws @ v @ '';'' @ post"
    and "scanArrives pre (''return'' @ ws @ v @ '';'' @ post)"
    and "ws \<noteq> []" and "list_all isSpace ws" and "v \<noteq> []" and "\<not> isSpace (hd v)"
    and "CHR '';'' \<notin> set v"
    and "stripQuotes v \<notin> {''%empty'', ''nullptr'', ''NULL''}" and "tm (stripQuotes v) = None"
  shows "scopeVars tm code =
           replaceTokenRe (returnToken tm) pre @
           ''return TokenType::'' @ stripQuotes v @ '';'' @
           replaceTokenRe (returnToken tm) post
         \<and> (\<forall>h. (if endsWithSemicolon h then h else h @ '';'') = code \<longrightarrow>
               (\<forall>P g isTokenSymbol. getSemanticActionCode P = Some h \<and> terminalsMap g = tm \<longrightarrow>
                  action (last (productionHandlers (snd (buildSemanticAction isTokenSymbol P g)))) =
                    generateHandlerEpilogue P
                      (generateHandlerPrologue P (trim (scopeVars tm code))
                         (getParamsInfo isTokenSymbol P (trim (scopeVars tm code)))))
               \<and> (\<forall>r g. getRawHandler r = h \<and> terminalsMap g = tm \<longrightarrow>
                  action (last (lexHandlers (snd (lexRuleEntry r g)))) = trim (scopeVars tm code)))"
proof -
  have "scopeVars tm code =
      replaceTokenRe (returnToken tm) pre @ returnToken tm v @ replaceTokenRe (returnToken tm) post"
    using assms(1-7) by (rule scopeVars_statement)
  moreover have "returnToken tm v = ''return TokenType::'' @ stripQuotes v @ '';''"
    using assms(8,9) by (auto simp: returnToken_def Let_def)
  ultimately have first: "scopeVars tm code =
           replaceTokenRe (returnToken tm) pre @
           ''return TokenType::'' @ stripQuotes v @ '';'' @
           replaceTokenRe (returnToken tm) post" by simp
  have act: "actionFromHandler tm h = trim (scopeVars tm code) \<and> h \<noteq> [] \<and> lexHandlerSource h = h"
    if h: "(if endsWithSemicolon h then h else h @ '';'') = code" for h
  proof -
    have sub: "sublist ''return'' h"
      using assms(1) h by (rule statement_in_handler)
    then have nb: "\<not> list_all isSpace h" by (rule sublist_return_nonblank)
    then have "h \<noteq> []" by auto
    moreover have "actionFromHandler tm h = trim (scopeVars tm code)"
      unfolding h [symmetric] using nb by (rule actionFromHandler_nonblank)
    moreover have "lexHandlerSource h = h"
      using sub by (simp add: lexHandlerSource_def str_includes_sublist)
    ultimately show ?thesis by simp
  qed
  have second: "action (last (productionHandlers (snd (buildSemanticAction isTokenSymbol P g)))) =
                    generateHandlerEpilogue P
                      (generateHandlerPrologue P (trim (scopeVars tm code))
                         (getParamsInfo isTokenSymbol P (trim (scopeVars tm code))))"
    if "(if endsWithSemicolon h then h else h @ '';'') = code"
      and "getSemanticActionCode P = Some h" and "terminalsMap g = tm"
    for h P g isTokenSymbol
    using act [OF that(1)] that(2,3) by (simp add: buildSemanticAction_def Let_def)
  have third: "action (last (lexHandlers (snd (lexRuleEntry r g)))) = trim (scopeVars tm code)"
    if "(if endsWithSemicolon h then h else h @ '';'') = code"
      and "getRawHandler r = h" and "terminalsMap g = tm"
    for h r g
    using act [OF that(1)] that(2,3) by (simp add: lexRuleEntry_def Let_def)
  from first second third show ?thesis by blast
qed

theorem scopeVars_other_returns_witness:
  "(let tm = [''+'' \<mapsto> 3];
        P = \<lparr>getRHS = [''E''], isEpsilon = False, derivesPropagatingToken = False,
             getSemanticActionCode = Some ''if (x) return NUMBER''\<rparr>;
        g = \<lparr>slots = Map.empty, productionHandlers = [], lexHandlers = [], terminalsMap = tm\<rparr>;
        r = \<lparr>getRawMatcher = ''[0-9]+'', getRawHandler = ''if (x) return NUMBER''\<rparr>
    in scanArrives ''if (x) '' ''return NUMBER;''
       \<and> scopeVars tm ''if (x) return NUMBER;'' = ''if (x) return TokenType::NUMBER;''
       \<and> action (last (productionHandlers (snd (buildSemanticAction (\<lambda>s. False) P g)))) =
           ''// Semantic action prologue.'' @ [CHR 0x0A] @
           ''parser.valuesStack.pop_back();'' @ [CHR 0x0A, CHR 0x0A] @
           ''if (x) return TokenType::NUMBER;'' @ [CHR 0x0A, CHR 0x0A] @
           '' // Semantic action epilogue.'' @ [CHR 0x0A] @
           ''PUSH_VR();'' @ [CHR 0x0A]
       \<and> action (last (lexHandlers (snd (lexRuleEntry r g)))) = ''if (x) return TokenType::NUMBER;'')"
proof -
  define tm where "tm = [''+'' \<mapsto> (3 :: nat)]"
  define P where "P = \<lparr>getRHS = [''E''], isEpsilon = False, derivesPropagatingToken = False,
             getSemanticActionCode = Some ''if (x) return NUMBER''\<rparr>"
  define g where "g = \<lparr>slots = (Map.empty :: string \<rightharpoonup> string), productionHandlers = [],
             lexHandlers = [], terminalsMap = tm\<rparr>"
  define r where "r = \<lparr>getRawMatcher = ''[0-9]+'', getRawHandler = ''if (x) return NUMBER''\<rparr>"
  have a: "scanArrives ''if (x) '' (''return'' @ '' '' @ ''NUMBER'' @ '';'' @ [])" by code_simp
  have c: "replace_underscores None (replace_yytext ''if (x) return NUMBER;'') =
      ''if (x) '' @ ''return'' @ '' '' @ ''NUMBER'' @ '';'' @ []"
    by (simp add: isWord_def)
  have s: "stripQuotes ''NUMBER'' = ''NUMBER''" by (simp add: stripQuotes_def isQuote_def)
  have n: "stripQuotes ''NUMBER'' \<notin> {''%empty'', ''nullptr'', ''NULL''}" "tm (stripQuotes ''NUMBER'') = None"
    unfolding s by (simp_all add: tm_def)
  have w: "'' '' \<noteq> []" "list_all isSpace '' ''" "''NUMBER'' \<noteq> []" "\<not> isSpace (hd ''NUMBER'')"
    "CHR '';'' \<notin> set ''NUMBER''"
    by (simp_all add: isSpace_def)
  have e: "(if endsWithSemicolon ''if (x) return NUMBER'' then ''if (x) return NUMBER''
            else ''if (x) return NUMBER'' @ '';'') = ''if (x) return NUMBER;''"
    by (simp add: endsWithSemicolon_def isSpace_def)
  note t = scopeVars_other_returns [where code = "''if (x) return NUMBER;''" and pre = "''if (x) ''"
      and ws = "'' ''" and v = "''NUMBER''" and post = "[]" and tm = tm, OF c a w n]
  from t [THEN conjunct1] have sv: "scopeVars tm ''if (x) return NUMBER;'' = ''if (x) return TokenType::NUMBER;''"
    by (simp add: s matchReturn_def)
  have tr: "trim ''if (x) return TokenType::NUMBER;'' = ''if (x) return TokenType::NUMBER;''"
    by (simp add: trim_def isSpace_def)
  note q = t [THEN conjunct2, rule_format, OF e]
  have gp: "getSemanticActionCode P = Some ''if (x) return NUMBER'' \<and> terminalsMap g = tm"
    by (simp add: P_def g_def)
  have gr: "getRawHandler r = ''if (x) return NUMBER'' \<and> terminalsMap g = tm"
    by (simp add: r_def g_def)
  have ev: "generateHandlerEpilogue P
        (generateHandlerPrologue P ''if (x) return TokenType::NUMBER;''
           (getParamsInfo (\<lambda>s. False) P ''if (x) return TokenType::NUMBER;'')) =
           ''// Semantic action prologue.'' @ [CHR 0x0A] @
           ''parser.valuesStack.pop_back();'' @ [CHR 0x0A, CHR 0x0A] @
           ''if (x) return TokenType::NUMBER;'' @ [CHR 0x0A, CHR 0x0A] @
           '' // Semantic action epilogue.'' @ [CHR 0x0A] @
           ''PUSH_VR();'' @ [CHR 0x0A]"
    unfolding P_def by code_simp
  from q [THEN conjunct1, rule_format, OF gp, of "\<lambda>s. False"]
  have pa: "action (last (productionHandlers (snd (buildSemanticAction (\<lambda>s. False) P g)))) =
           ''// Semantic action prologue.'' @ [CHR 0x0A] @
           ''parser.valuesStack.pop_back();'' @ [CHR 0x0A, CHR 0x0A] @
           ''if (x) return TokenType::NUMBER;'' @ [CHR 0x0A, CHR 0x0A] @
           '' // Semantic action epilogue.'' @ [CHR 0x0A] @
           ''PUSH_VR();'' @ [CHR 0x0A]"
    unfolding sv tr ev .
  from q [THEN conjunct2, rule_format, OF gr]
  have la: "action (last (lexHandlers (snd (lexRuleEntry r g)))) = ''if (x) return TokenType::NUMBER;''"
    unfolding sv tr .
  from a sv pa la show ?thesis
    unfolding Let_def tm_def [symmetric] P_def [symmetric] g_def [symmetric] r_def [symmetric] by simp
qed

theorem scopeVars_other_returns_counterexample:
  "(let code = ''/* return the first */ return first;'';
        pre = ''/* return the first */ ''
    in replace_underscores None (replace_yytext code) = pre @ ''return'' @ '' '' @ ''first'' @ '';'' @ []
       \<and> stripQuotes ''first'' = ''first''
       \<and> \<not> scanArrives pre (''return'' @ '' '' @ ''first'' @ '';'' @ [])
       \<and> scopeVars Map.empty code = ''/* return TokenType::the first */ return first;''
       \<and> scopeVars Map.empty code \<noteq>
           replaceTokenRe (returnToken Map.empty) pre @ ''return TokenType::first;'' @
           replaceTokenRe (returnToken Map.empty) [])"
  by (simp add: scopeVars_def matchReturn_def returnToken_def stripQuotes_def isQuote_def isSpace_def
      isWord_def Let_def)

section \<open>Lexical handlers\<close>

text \<open>
  Claim C6, as amended. \<^verbatim>\<open>generateLexRules\<close> tests a raw lexical handler for the
  letters \<^verbatim>\<open>return\<close>, wherever they stand. For a handler that does not include them,
  the text handed to the rewriting is the handler with \<^verbatim>\<open>return\<close> and a blank in
  front, and the action recorded starts with \<^verbatim>\<open>return\<close> and holds the letters
  \<^verbatim>\<open>return\<close> exactly once. A handler that includes the letters, also inside a longer
  word such as \<^verbatim>\<open>returnValue\<close>, gets no \<^verbatim>\<open>return\<close>: the action recorded is
  the handler itself, rewritten and trimmed, with a semicolon added where it does not end in
  one. \<^verbatim>\<open>generateLexRules\<close> records these actions for the rules in turn.
\<close>

theorem lex_handler_return_synthesis:
  "(\<not> str_includes h ''return'' \<longrightarrow>
      lexHandlerSource h = ''return '' @ h
      \<and> prefix ''return'' (actionFromHandler tm (lexHandlerSource h))
      \<and> occurrences ''return'' (actionFromHandler tm (lexHandlerSource h)) = 1)
   \<and> (str_includes h ''return'' \<longrightarrow>
      lexHandlerSource h = h
      \<and> actionFromHandler tm (lexHandlerSource h) =
          trim (scopeVars tm (if endsWithSemicolon h then h else h @ '';'')))
   \<and> map action (lexHandlers (generateLexRules lg g)) =
       map action (lexHandlers g) @
       map (\<lambda>r. actionFromHandler (terminalsMap g) (lexHandlerSource (getRawHandler r))) (getRules lg)"
proof -
  have one: "lexHandlerSource h = ''return '' @ h
      \<and> prefix ''return'' (actionFromHandler tm (lexHandlerSource h))
      \<and> occurrences ''return'' (actionFromHandler tm (lexHandlerSource h)) = 1"
    if "\<not> str_includes h ''return''"
  proof -
    from that have src: "lexHandlerSource h = ''return '' @ h" by (simp add: lexHandlerSource_def)
    from that have "\<not> sublist ''return'' h" by (simp only: str_includes_sublist simp_thms)
    from lex_action_leading [OF this, of tm] obtain b where
      b: "actionFromHandler tm (''return '' @ h) = ''return'' @ b" and nb: "\<not> sublist ''return'' b"
      by blast
    from nb have "occurrences ''return'' (''return'' @ b) = 1" by (rule occurrences_leading)
    then show ?thesis unfolding src b by simp
  qed
  have two: "lexHandlerSource h = h
      \<and> actionFromHandler tm (lexHandlerSource h) =
          trim (scopeVars tm (if endsWithSemicolon h then h else h @ '';''))"
    if "str_includes h ''return''"
  proof -
    from that have src: "lexHandlerSource h = h" by (simp add: lexHandlerSource_def)
    from that have "sublist ''return'' h" by (simp only: str_includes_sublist simp_thms)
    then have "\<not> list_all isSpace h" by (rule sublist_return_nonblank)
    then have "actionFromHandler tm h =
        trim (scopeVars tm (if endsWithSemicolon h then h else h @ '';''))"
      by (rule actionFromHandler_nonblank)
    then show ?thesis unfolding src by simp
  qed
  have three: "map action (lexHandlers (generateLexRules lg g)) =
       map action (lexHandlers g) @
       map (\<lambda>r. actionFromHandler (terminalsMap g) (lexHandlerSource (getRawHandler r))) (getRules lg)"
    by (simp add: generateLexRules_def lexRuleEntries_result writeData_def Let_def o_def)
  from one two three show ?thesis by blast
qed


theorem lex_handler_return_synthesis_witness:
  "(let lg = \<lparr>getRules = [\<lparr>getRawMatcher = ''[0-9]+'', getRawHandler = ''NUMBER''\<rparr>,
                           \<lparr>getRawMatcher = ''[a-z]+'', getRawHandler = ''yytext = 1; return NAME''\<rparr>],
               getRulesByStartConditions = [], getRuleIndex = (\<lambda>r. 0)\<rparr>;
        g = \<lparr>slots = Map.empty, productionHandlers = [], lexHandlers = [], terminalsMap = Map.empty\<rparr>
    in \<not> str_includes ''NUMBER'' ''return''
       \<and> lexHandlerSource ''NUMBER'' = ''return NUMBER''
       \<and> occurrences ''return'' (actionFromHandler Map.empty (lexHandlerSource ''NUMBER'')) = 1
       \<and> str_includes ''yytext = 1; return NAME'' ''return''
       \<and> map action (lexHandlers (generateLexRules lg g)) =
           [''return TokenType::NUMBER;'', ''tokenizer.yytext = 1; return TokenType::NAME;''])"
proof -
  define lg where "lg = \<lparr>getRules = [\<lparr>getRawMatcher = ''[0-9]+'', getRawHandler = ''NUMBER''\<rparr>,
                           \<lparr>getRawMatcher = ''[a-z]+'', getRawHandler = ''yytext = 1; return NAME''\<rparr>],
               getRulesByStartConditions = [], getRuleIndex = (\<lambda>r. 0 :: nat)\<rparr>"
  define g where "g = \<lparr>slots = (Map.empty :: string \<rightharpoonup> string), productionHandlers = [],
             lexHandlers = [], terminalsMap = (Map.empty :: string \<rightharpoonup> nat)\<rparr>"
  have a: "\<not> str_includes ''NUMBER'' ''return''" by simp
  have b: "str_includes ''yytext = 1; return NAME'' ''return''" by simp
  note t1 = lex_handler_return_synthesis [of "''NUMBER''" Map.empty lg g]
  note t2 = lex_handler_return_synthesis [of "''yytext = 1; return NAME''" Map.empty lg g]
  from t1 a have "lexHandlerSource ''NUMBER'' = ''return '' @ ''NUMBER''"
    and o1: "occurrences ''return'' (actionFromHandler Map.empty (lexHandlerSource ''NUMBER'')) = 1"
    by blast+
  then have s1: "lexHandlerSource ''NUMBER'' = ''return NUMBER''" by simp
  from t2 b have s2: "lexHandlerSource ''yytext = 1; return NAME'' = ''yytext = 1; return NAME''"
    by blast
  have e1: "actionFromHandler Map.empty ''return NUMBER'' = ''return TokenType::NUMBER;''"
    by code_simp
  have e2: "actionFromHandler Map.empty ''yytext = 1; return NAME'' =
      ''tokenizer.yytext = 1; return TokenType::NAME;''"
    by code_simp
  from t1 have "map action (lexHandlers (generateLexRules lg g)) =
       map action (lexHandlers g) @
       map (\<lambda>r. actionFromHandler (terminalsMap g) (lexHandlerSource (getRawHandler r))) (getRules lg)"
    by blast
  then have m: "map action (lexHandlers (generateLexRules lg g)) =
           [''return TokenType::NUMBER;'', ''tokenizer.yytext = 1; return TokenType::NAME;'']"
    by (simp add: lg_def g_def s1 s2 e1 e2)
  from a s1 o1 b m show ?thesis
    unfolding Let_def lg_def [symmetric] g_def [symmetric] by simp
qed

theorem lex_handler_return_synthesis_counterexample:
  "(let lg = \<lparr>getRules = [\<lparr>getRawMatcher = ''[a-z]+'', getRawHandler = ''returnValue''\<rparr>],
               getRulesByStartConditions = [], getRuleIndex = (\<lambda>r. 0)\<rparr>;
        g = \<lparr>slots = Map.empty, productionHandlers = [], lexHandlers = [], terminalsMap = Map.empty\<rparr>
    in \<not> hasExplicitReturn ''returnValue''
       \<and> lexHandlerSource ''returnValue'' = ''returnValue''
       \<and> map action (lexHandlers (generateLexRules lg g)) = [''returnValue;'']
       \<and> \<not> hasExplicitReturn ''returnValue;'')"
  by code_simp

section \<open>Token types\<close>

lemma tokenTypeEntries_fst:
  "fst (tokenTypeEntries tokensMap tokens g) =
     map (\<lambda>(token, index).
            if token \<in> tokensMap then token @ '' = '' @ show_nat index
            else if token = ''$'' then ''__EOF = '' @ show_nat index
            else ''TOKEN_TYPE_'' @ show_nat index @ '' = '' @ show_nat index) tokens"
  by (induction tokens arbitrary: g) (auto simp: tokenType_def Let_def split_def)

lemma tokenTypeEntries_snd:
  "snd (tokenTypeEntries tokensMap tokens g) =
     g\<lparr>terminalsMap := fold (\<lambda>(token, index) m. if token \<in> tokensMap then m else m(token \<mapsto> index))
                          tokens (terminalsMap g)\<rparr>"
  by (induction tokens arbitrary: g) (auto simp: tokenType_def Let_def split_def)

lemma generateTokenTypes_eq:
  "generateTokenTypes tokensMap tokens g =
     writeData ''TOKEN_TYPES''
       (join ('','' @ [CHR 0x0A] @ ''  '') (fst (tokenTypeEntries tokensMap tokens g)))
       (snd (tokenTypeEntries tokensMap tokens g))"
  by (simp add: generateTokenTypes_def split_def Let_def)

lemma fold_record_other:
  "token \<in> tokensMap \<or> token \<notin> fst ` set tokens \<Longrightarrow>
   fold (\<lambda>(token, index) m. if token \<in> tokensMap then m else m(token \<mapsto> index)) tokens m token = m token"
  by (induction tokens arbitrary: m) (auto simp: split_def image_iff)

lemma fold_record_undeclared:
  "distinct (map fst tokens) \<Longrightarrow> (token, index) \<in> set tokens \<Longrightarrow> token \<notin> tokensMap \<Longrightarrow>
   fold (\<lambda>(token, index) m. if token \<in> tokensMap then m else m(token \<mapsto> index)) tokens m token = Some index"
proof (induction tokens arbitrary: m)
  case Nil
  then show ?case by simp
next
  case (Cons t ts)
  show ?case
  proof (cases "t = (token, index)")
    case True
    with Cons.prems have "token \<notin> fst ` set ts" by (auto simp: image_iff)
    then show ?thesis using True Cons.prems(3) by (simp add: fold_record_other)
  next
    case False
    with Cons.prems have "(token, index) \<in> set ts" and "distinct (map fst ts)" by auto
    then show ?thesis using Cons.IH Cons.prems(3) by simp
  qed
qed

text \<open>
  Claim C7, as amended. \<^verbatim>\<open>generateTokenTypes\<close> emits one member per terminal, in the
  order of the terminals: \<^verbatim>\<open><name> = <code>\<close> for a token the grammar declares by name,
  else \<^verbatim>\<open>__EOF = <code>\<close> for \<^verbatim>\<open>$\<close>, else
  \<^verbatim>\<open>TOKEN_TYPE_<code> = <code>\<close>. It records the terminal's string with its code in the
  terminals map for every terminal that is not a declared token: in the placeholder case
  and for \<^verbatim>\<open>$\<close> as well. A declared token, and a string that is no terminal, keeps
  what the map held before.
\<close>

theorem token_types_generated:
  assumes "distinct (map fst tokens)"
  shows "slots (generateTokenTypes tokensMap tokens g) ''TOKEN_TYPES'' =
           Some (join ('','' @ [CHR 0x0A] @ ''  '')
                   (map (\<lambda>(token, index).
                           if token \<in> tokensMap then token @ '' = '' @ show_nat index
                           else if token = ''$'' then ''__EOF = '' @ show_nat index
                           else ''TOKEN_TYPE_'' @ show_nat index @ '' = '' @ show_nat index) tokens))
         \<and> (\<forall>(token, index) \<in> set tokens.
               token \<notin> tokensMap \<longrightarrow>
                 terminalsMap (generateTokenTypes tokensMap tokens g) token = Some index)
         \<and> (\<forall>token. token \<in> tokensMap \<or> token \<notin> fst ` set tokens \<longrightarrow>
               terminalsMap (generateTokenTypes tokensMap tokens g) token = terminalsMap g token)"
proof -
  note g' = generateTokenTypes_eq [of tokensMap tokens g]
  have "\<forall>(token, index) \<in> set tokens.
               token \<notin> tokensMap \<longrightarrow>
                 terminalsMap (generateTokenTypes tokensMap tokens g) token = Some index"
    using assms by (auto simp: g' writeData_def tokenTypeEntries_snd fold_record_undeclared)
  moreover have "\<forall>token. token \<in> tokensMap \<or> token \<notin> fst ` set tokens \<longrightarrow>
               terminalsMap (generateTokenTypes tokensMap tokens g) token = terminalsMap g token"
    by (simp add: g' writeData_def tokenTypeEntries_snd fold_record_other)
  ultimately show ?thesis
    by (simp add: g' writeData_def tokenTypeEntries_fst)
qed

theorem token_types_generated_witness:
  "(let tokens = [(''NUMBER'', 0), (''+'', 1), (''$'', 2)];
        g = generateTokenTypes {''NUMBER''} tokens
              \<lparr>slots = Map.empty, productionHandlers = [], lexHandlers = [], terminalsMap = Map.empty\<rparr>
    in distinct (map fst tokens)
       \<and> slots g ''TOKEN_TYPES'' =
           Some (''NUMBER = 0,'' @ [CHR 0x0A] @ ''  TOKEN_TYPE_1 = 1,'' @ [CHR 0x0A] @ ''  __EOF = 2'')
       \<and> terminalsMap g ''+'' = Some 1 \<and> terminalsMap g ''$'' = Some 2
       \<and> terminalsMap g ''NUMBER'' = None)"
proof -
  define g0 where "g0 = \<lparr>slots = Map.empty, productionHandlers = [], lexHandlers = [],
                        terminalsMap = (Map.empty :: string \<rightharpoonup> nat)\<rparr>"
  define tokens where "tokens = [(''NUMBER'', 0 :: nat), (''+'', 1), (''$'', 2)]"
  have d: "distinct (map fst tokens)" by (simp add: tokens_def)
  have s: "show_nat 0 = ''0''" "show_nat 1 = ''1''" "show_nat (Suc 0) = ''1''" "show_nat 2 = ''2''"
    by (simp_all add: show_nat.simps digit_char_def)
  from token_types_generated [OF d, of "{''NUMBER''}" g0]
  have "slots (generateTokenTypes {''NUMBER''} tokens g0) ''TOKEN_TYPES'' =
           Some (''NUMBER = 0,'' @ [CHR 0x0A] @ ''  TOKEN_TYPE_1 = 1,'' @ [CHR 0x0A] @ ''  __EOF = 2'')
       \<and> terminalsMap (generateTokenTypes {''NUMBER''} tokens g0) ''+'' = Some 1
       \<and> terminalsMap (generateTokenTypes {''NUMBER''} tokens g0) ''$'' = Some 2
       \<and> terminalsMap (generateTokenTypes {''NUMBER''} tokens g0) ''NUMBER'' = None"
    by (simp add: tokens_def g0_def s)
  with d show ?thesis
    unfolding Let_def tokens_def [symmetric] g0_def [symmetric] by simp
qed

theorem token_types_generated_counterexample:
  "(let g = generateTokenTypes {} [(''$'', 0)]
              \<lparr>slots = Map.empty, productionHandlers = [], lexHandlers = [], terminalsMap = Map.empty\<rparr>
    in slots g ''TOKEN_TYPES'' = Some ''__EOF = 0'' \<and> terminalsMap g ''$'' = Some 0)"
  by (simp add: generateTokenTypes_def tokenType_def writeData_def Let_def show_nat.simps digit_char_def)

text \<open>
  Claim C10, as amended. When the terminals hold \<^verbatim>\<open>$\<close> with a code and the grammar
  does not declare \<^verbatim>\<open>$\<close> as a named token, the terminals map after
  \<^verbatim>\<open>generateTokenTypes\<close> holds \<^verbatim>\<open>$\<close> with that code. A statement
  \<^verbatim>\<open>return '$';\<close> of a handler body, at which the scan of the third replacement
  arrives, is then rewritten to \<^verbatim>\<open>return TokenType::TOKEN_TYPE_<code>;\<close>, which is not
  \<^verbatim>\<open>return TokenType::__EOF;\<close>.
\<close>

theorem eof_literal_rewritten:
  assumes "distinct (map fst tokens)" and "(''$'', n) \<in> set tokens" and "''$'' \<notin> tokensMap"
    and "tm = terminalsMap (generateTokenTypes tokensMap tokens g)"
  shows "tm ''$'' = Some n
         \<and> (\<forall>code pre ws post.
               replace_underscores None (replace_yytext code) =
                 pre @ ''return'' @ ws @ [CHR 0x27, CHR ''$'', CHR 0x27] @ '';'' @ post
               \<and> scanArrives pre (''return'' @ ws @ [CHR 0x27, CHR ''$'', CHR 0x27] @ '';'' @ post)
               \<and> ws \<noteq> [] \<and> list_all isSpace ws \<longrightarrow>
               scopeVars tm code =
                 replaceTokenRe (returnToken tm) pre @
                 ''return TokenType::TOKEN_TYPE_'' @ show_nat n @ '';'' @
                 replaceTokenRe (returnToken tm) post)
         \<and> ''return TokenType::TOKEN_TYPE_'' @ show_nat n @ '';'' \<noteq> ''return TokenType::__EOF;''"
proof -
  have tm: "tm ''$'' = Some n"
    unfolding assms(4) using assms(1-3)
    by (simp add: generateTokenTypes_eq writeData_def tokenTypeEntries_snd fold_record_undeclared)
  have rt: "returnToken tm [CHR 0x27, CHR ''$'', CHR 0x27] =
      ''return TokenType::TOKEN_TYPE_'' @ show_nat n @ '';''"
    using tm by (simp add: returnToken_def stripQuotes_def isQuote_def)
  have sv: "scopeVars tm code =
        replaceTokenRe (returnToken tm) pre @
        ''return TokenType::TOKEN_TYPE_'' @ show_nat n @ '';'' @
        replaceTokenRe (returnToken tm) post"
    if "replace_underscores None (replace_yytext code) =
          pre @ ''return'' @ ws @ [CHR 0x27, CHR ''$'', CHR 0x27] @ '';'' @ post"
      and "scanArrives pre (''return'' @ ws @ [CHR 0x27, CHR ''$'', CHR 0x27] @ '';'' @ post)"
      and "ws \<noteq> []" and "list_all isSpace ws"
    for code pre ws post
  proof -
    have "scopeVars tm code =
        replaceTokenRe (returnToken tm) pre @ returnToken tm [CHR 0x27, CHR ''$'', CHR 0x27] @
        replaceTokenRe (returnToken tm) post"
      using that by (intro scopeVars_statement) (simp_all add: isSpace_def)
    then show ?thesis by (simp only: rt append_assoc)
  qed
  have ne: "''return TokenType::TOKEN_TYPE_'' @ show_nat n @ '';'' \<noteq> ''return TokenType::__EOF;''"
    by simp
  from tm sv ne show ?thesis by blast
qed

theorem eof_literal_rewritten_witness:
  "(let tokens = [(''NUMBER'', 0), (''$'', 1)];
        g = generateTokenTypes {''NUMBER''} tokens
              \<lparr>slots = Map.empty, productionHandlers = [], lexHandlers = [], terminalsMap = Map.empty\<rparr>
    in distinct (map fst tokens) \<and> (''$'', 1) \<in> set tokens \<and> ''$'' \<notin> {''NUMBER''}
       \<and> slots g ''TOKEN_TYPES'' = Some (''NUMBER = 0,'' @ [CHR 0x0A] @ ''  __EOF = 1'')
       \<and> terminalsMap g ''$'' = Some 1
       \<and> scanArrives ''if (done) '' (''return '' @ [CHR 0x27, CHR ''$'', CHR 0x27] @ '';'')
       \<and> scopeVars (terminalsMap g) (''if (done) return '' @ [CHR 0x27, CHR ''$'', CHR 0x27] @ '';'') =
           ''if (done) return TokenType::TOKEN_TYPE_1;'')"
proof -
  define g0 where "g0 = \<lparr>slots = Map.empty, productionHandlers = [], lexHandlers = [],
                        terminalsMap = (Map.empty :: string \<rightharpoonup> nat)\<rparr>"
  define tokens where "tokens = [(''NUMBER'', 0 :: nat), (''$'', 1)]"
  define g where "g = generateTokenTypes {''NUMBER''} tokens g0"
  have d: "distinct (map fst tokens)" and m: "(''$'', 1) \<in> set tokens" and u: "''$'' \<notin> {''NUMBER''}"
    by (simp_all add: tokens_def)
  have s: "show_nat 0 = ''0''" "show_nat 1 = ''1''" "show_nat (Suc 0) = ''1''"
    by (simp_all add: show_nat.simps digit_char_def)
  have sl: "slots g ''TOKEN_TYPES'' = Some (''NUMBER = 0,'' @ [CHR 0x0A] @ ''  __EOF = 1'')"
    by (simp add: g_def g0_def tokens_def generateTokenTypes_def tokenType_def writeData_def Let_def s)
  have r: "replace_underscores None (replace_yytext (''if (done) return '' @ [CHR 0x27, CHR ''$'', CHR 0x27] @ '';'')) =
      ''if (done) '' @ ''return'' @ '' '' @ [CHR 0x27, CHR ''$'', CHR 0x27] @ '';'' @ []"
    by (simp add: isWord_def)
  have a: "scanArrives ''if (done) '' (''return'' @ '' '' @ [CHR 0x27, CHR ''$'', CHR 0x27] @ '';'' @ [])"
    by code_simp
  have w: "'' '' \<noteq> [] \<and> list_all isSpace '' ''" by (simp add: isSpace_def)
  have t: "terminalsMap g = terminalsMap (generateTokenTypes {''NUMBER''} tokens g0)"
    by (simp add: g_def)
  note e = eof_literal_rewritten [OF d m u t]
  from e have tm: "terminalsMap g ''$'' = Some 1" by (rule conjunct1)
  from e [THEN conjunct2, THEN conjunct1, rule_format, OF conjI [OF r conjI [OF a w]]]
  have "scopeVars (terminalsMap g) (''if (done) return '' @ [CHR 0x27, CHR ''$'', CHR 0x27] @ '';'') =
           ''if (done) return TokenType::TOKEN_TYPE_1;''"
    by (simp add: matchReturn_def s)
  with d m u sl tm a show ?thesis
    unfolding Let_def tokens_def [symmetric] g0_def [symmetric] g_def [symmetric] by simp
qed

theorem eof_literal_rewritten_counterexample:
  "(let g = generateTokenTypes {} [(''$'', 0)]
              \<lparr>slots = Map.empty, productionHandlers = [], lexHandlers = [], terminalsMap = Map.empty\<rparr>;
        code = ''/* return the EOF */ return '' @ [CHR 0x27, CHR ''$'', CHR 0x27] @ '';'';
        pre = ''/* return the EOF */ ''
    in terminalsMap g ''$'' = Some 0
       \<and> replace_underscores None (replace_yytext code) =
           pre @ ''return'' @ '' '' @ [CHR 0x27, CHR ''$'', CHR 0x27] @ '';'' @ []
       \<and> \<not> scanArrives pre (''return'' @ '' '' @ [CHR 0x27, CHR ''$'', CHR 0x27] @ '';'' @ [])
       \<and> scopeVars (terminalsMap g) code =
           ''/* return TokenType::the EOF */ return '' @ [CHR 0x27, CHR ''$''] @ '';''
       \<and> \<not> str_includes (scopeVars (terminalsMap g) code) ''TOKEN_TYPE_0'')"
  by (simp add: generateTokenTypes_def tokenType_def writeData_def Let_def show_nat.simps digit_char_def
      scopeVars_def matchReturn_def returnToken_def stripQuotes_def isQuote_def isSpace_def isWord_def)

section \<open>The module include\<close>

lemma space_not_word: "isSpace c \<Longrightarrow> \<not> isWord c"
  by (auto simp: isSpace_def isWord_def)

lemma dropWhile_run:
  assumes "list_all P xs" and "ys = [] \<or> \<not> P (hd ys)"
  shows "dropWhile P (xs @ ys) = ys"
proof -
  have "dropWhile P (xs @ ys) = dropWhile P ys"
    using assms(1) by (intro dropWhile_append2) (simp add: list_all_iff)
  also have "\<dots> = ys" using assms(2) by (cases ys) auto
  finally show ?thesis .
qed

lemma run_split:
  assumes "dropWhile P r \<noteq> r"
  obtains xs where "r = xs @ dropWhile P r" and "xs \<noteq> []" and "list_all P xs"
proof
  show "r = takeWhile P r @ dropWhile P r" by simp
  show "takeWhile P r \<noteq> []" using assms by (cases r) (auto split: if_splits)
  show "list_all P (takeWhile P r)" by (simp add: list_all_iff) (meson set_takeWhileD)
qed

lemma valueAfter_iff:
  "valueAfter kw s \<longleftrightarrow>
     (\<exists>ws post. s = kw @ ws @ ''Value'' @ post \<and> ws \<noteq> [] \<and> list_all isSpace ws \<and>
                (post = [] \<or> \<not> isWord (hd post)))"
proof
  assume v: "valueAfter kw s"
  define r where "r = drop (length kw) s"
  from v have p: "prefix kw s" and n: "dropWhile isSpace r \<noteq> r"
    and pv: "prefix ''Value'' (dropWhile isSpace r)"
    and b: "case drop 5 (dropWhile isSpace r) of [] \<Rightarrow> True | c # _ \<Rightarrow> \<not> isWord c"
    by (simp_all add: valueAfter_def Let_def r_def)
  from p have s: "s = kw @ r" by (auto simp: prefix_def r_def)
  from n obtain ws where ws: "r = ws @ dropWhile isSpace r" "ws \<noteq> []" "list_all isSpace ws"
    by (rule run_split)
  from pv obtain post where post: "dropWhile isSpace r = ''Value'' @ post" by (auto simp: prefix_def)
  from b have "post = [] \<or> \<not> isWord (hd post)" by (cases post) (simp_all add: post)
  moreover have "s = kw @ ws @ ''Value'' @ post" using s ws(1) post by simp
  ultimately show "\<exists>ws post. s = kw @ ws @ ''Value'' @ post \<and> ws \<noteq> [] \<and> list_all isSpace ws \<and>
                (post = [] \<or> \<not> isWord (hd post))"
    using ws(2,3) by blast
next
  assume "\<exists>ws post. s = kw @ ws @ ''Value'' @ post \<and> ws \<noteq> [] \<and> list_all isSpace ws \<and>
                (post = [] \<or> \<not> isWord (hd post))"
  then obtain ws post where s: "s = kw @ ws @ ''Value'' @ post" and ws: "ws \<noteq> []" "list_all isSpace ws"
    and b: "post = [] \<or> \<not> isWord (hd post)" by blast
  define t where "t = ''Value'' @ post"
  have d: "dropWhile isSpace (ws @ t) = t"
    using ws(2) by (rule dropWhile_run) (simp add: t_def isSpace_def)
  have ne: "t \<noteq> ws @ t" using ws(1) by simp
  have "prefix kw (kw @ ws @ t)" by simp
  moreover have "drop (length kw) (kw @ ws @ t) = ws @ t" by simp
  moreover have "prefix ''Value'' t" by (simp add: t_def)
  moreover have "case drop 5 t of [] \<Rightarrow> True | c # _ \<Rightarrow> \<not> isWord c"
    using b by (cases post) (simp_all add: t_def)
  ultimately have "valueAfter kw (kw @ ws @ t)"
    unfolding valueAfter_def Let_def using d ne by simp
  then show "valueAfter kw s" by (simp add: s t_def)
qed

lemma word_not_space: "isWord c \<Longrightarrow> \<not> isSpace c"
  by (auto simp: isSpace_def isWord_def)

lemma typedefValue_iff:
  "typedefValue s \<longleftrightarrow>
     (\<exists>ws1 w ws2 post. s = ''typedef'' @ ws1 @ w @ ws2 @ ''Value'' @ post \<and>
        ws1 \<noteq> [] \<and> list_all isSpace ws1 \<and> w \<noteq> [] \<and> list_all isWord w \<and>
        ws2 \<noteq> [] \<and> list_all isSpace ws2)"
proof
  assume v: "typedefValue s"
  define r where "r = drop 7 s"
  define r1 where "r1 = dropWhile isSpace r"
  define r2 where "r2 = dropWhile isWord r1"
  define r3 where "r3 = dropWhile isSpace r2"
  from v have p: "prefix ''typedef'' s" and n1: "r1 \<noteq> r" and n2: "r2 \<noteq> r1" and n3: "r3 \<noteq> r2"
    and pv: "prefix ''Value'' r3"
    by (simp_all add: typedefValue_def Let_def r_def r1_def r2_def r3_def)
  from p have s: "s = ''typedef'' @ r" by (auto simp: prefix_def r_def)
  from n1 obtain ws1 where ws1: "r = ws1 @ r1" "ws1 \<noteq> []" "list_all isSpace ws1"
    unfolding r1_def by (rule run_split)
  from n2 obtain w where w: "r1 = w @ r2" "w \<noteq> []" "list_all isWord w"
    unfolding r2_def by (rule run_split)
  from n3 obtain ws2 where ws2: "r2 = ws2 @ r3" "ws2 \<noteq> []" "list_all isSpace ws2"
    unfolding r3_def by (rule run_split)
  from pv obtain post where post: "r3 = ''Value'' @ post" by (auto simp: prefix_def)
  have "s = ''typedef'' @ ws1 @ w @ ws2 @ ''Value'' @ post"
    by (simp only: s ws1(1) w(1) ws2(1) post)
  then show "\<exists>ws1 w ws2 post. s = ''typedef'' @ ws1 @ w @ ws2 @ ''Value'' @ post \<and>
        ws1 \<noteq> [] \<and> list_all isSpace ws1 \<and> w \<noteq> [] \<and> list_all isWord w \<and>
        ws2 \<noteq> [] \<and> list_all isSpace ws2"
    using ws1(2,3) w(2,3) ws2(2,3) by blast
next
  assume "\<exists>ws1 w ws2 post. s = ''typedef'' @ ws1 @ w @ ws2 @ ''Value'' @ post \<and>
        ws1 \<noteq> [] \<and> list_all isSpace ws1 \<and> w \<noteq> [] \<and> list_all isWord w \<and>
        ws2 \<noteq> [] \<and> list_all isSpace ws2"
  then obtain ws1 w ws2 post where s: "s = ''typedef'' @ ws1 @ w @ ws2 @ ''Value'' @ post"
    and ws1: "ws1 \<noteq> []" "list_all isSpace ws1" and w: "w \<noteq> []" "list_all isWord w"
    and ws2: "ws2 \<noteq> []" "list_all isSpace ws2" by blast
  define t3 where "t3 = ''Value'' @ post"
  define t2 where "t2 = ws2 @ t3"
  define t1 where "t1 = w @ t2"
  have hw: "\<not> isSpace (hd t1)"
    using w by (cases w) (auto simp: t1_def word_not_space)
  have hs: "\<not> isWord (hd t2)"
    using ws2 by (cases ws2) (auto simp: t2_def space_not_word)
  have d1: "dropWhile isSpace (ws1 @ t1) = t1"
    using ws1(2) hw by (intro dropWhile_run) simp_all
  have d2: "dropWhile isWord t1 = t2"
    unfolding t1_def using w(2) hs by (intro dropWhile_run) simp_all
  have d3: "dropWhile isSpace t2 = t3"
    unfolding t2_def using ws2(2) by (intro dropWhile_run) (simp_all add: t3_def isSpace_def)
  have ne: "t1 \<noteq> ws1 @ t1" "t2 \<noteq> t1" "t3 \<noteq> t2"
    using ws1(1) w(1) ws2(1) by (simp_all add: t1_def t2_def)
  have "prefix ''typedef'' (''typedef'' @ ws1 @ t1)" by simp
  moreover have "drop 7 (''typedef'' @ ws1 @ t1) = ws1 @ t1" by simp
  moreover have "prefix ''Value'' t3" by (simp add: t3_def)
  ultimately have "typedefValue (''typedef'' @ ws1 @ t1)"
    unfolding typedefValue_def Let_def using d1 d2 d3 ne by simp
  then show "typedefValue s" by (simp add: s t1_def t2_def t3_def)
qed

lemma hasValueTypeFrom_iff:
  "hasValueTypeFrom p s \<longleftrightarrow>
     (\<exists>pre rest. s = pre @ rest \<and>
        (if pre = [] then (case p of None \<Rightarrow> True | Some q \<Rightarrow> \<not> isWord q) else \<not> isWord (last pre)) \<and>
        (valueAfter ''using'' rest \<or> valueAfter ''class'' rest \<or> valueAfter ''struct'' rest \<or>
         typedefValue rest))"
proof (induction s arbitrary: p)
  case Nil
  show ?case by (simp add: valueAfter_def typedefValue_def)
next
  case (Cons c cs)
  let ?M = "\<lambda>rest. valueAfter ''using'' rest \<or> valueAfter ''class'' rest \<or> valueAfter ''struct'' rest \<or>
         typedefValue rest"
  let ?B = "\<lambda>p pre. if pre = [] then (case p of None \<Rightarrow> True | Some q \<Rightarrow> \<not> isWord q) else \<not> isWord (last pre)"
  have "(\<exists>pre rest. c # cs = pre @ rest \<and> ?B p pre \<and> ?M rest) \<longleftrightarrow>
        (?B p [] \<and> ?M (c # cs)) \<or> (\<exists>pre' rest. cs = pre' @ rest \<and> ?B (Some c) pre' \<and> ?M rest)"
    (is "?L \<longleftrightarrow> ?R1 \<or> ?R2")
  proof
    assume ?L
    then obtain pre rest where e: "c # cs = pre @ rest" and b: "?B p pre" and m: "?M rest" by blast
    show "?R1 \<or> ?R2"
    proof (cases pre)
      case Nil
      with e b m show ?thesis by simp
    next
      case (Cons a pre')
      with e have "a = c" and "cs = pre' @ rest" by simp_all
      moreover have "?B (Some c) pre'" using b Cons \<open>a = c\<close> by (cases "pre' = []") simp_all
      ultimately show ?thesis using m by blast
    qed
  next
    assume "?R1 \<or> ?R2"
    then show ?L
    proof
      assume ?R1
      then have "c # cs = [] @ (c # cs) \<and> ?B p [] \<and> ?M (c # cs)" by simp
      then show ?L by blast
    next
      assume ?R2
      then obtain pre' rest where e: "cs = pre' @ rest" and b: "?B (Some c) pre'" and m: "?M rest"
        by blast
      have "c # cs = (c # pre') @ rest" using e by simp
      moreover have "?B p (c # pre')" using b by (cases "pre' = []") simp_all
      ultimately show ?L using m by blast
    qed
  qed
  then have main: "?L = (?R1 \<or> ?R2)" by simp
  have "hasValueTypeFrom p (c # cs) = (?R1 \<or> hasValueTypeFrom (Some c) cs)" by simp
  then have step: "hasValueTypeFrom p (c # cs) = (?R1 \<or> ?R2)" by (simp only: Cons.IH)
  show ?case by (rule trans [OF step main [symmetric]])
qed

lemma hasValueType_pattern: "hasValueType m \<longleftrightarrow> matchesValuePattern m"
proof
  assume "hasValueType m"
  then have "\<exists>pre rest. m = pre @ rest \<and>
        (if pre = [] then True else \<not> isWord (last pre)) \<and>
        (valueAfter ''using'' rest \<or> valueAfter ''class'' rest \<or> valueAfter ''struct'' rest \<or>
         typedefValue rest)"
    by (simp only: hasValueType_def hasValueTypeFrom_iff option.case)
  then obtain pre rest where m: "m = pre @ rest"
    and b0: "if pre = [] then True else \<not> isWord (last pre)"
    and c: "valueAfter ''using'' rest \<or> valueAfter ''class'' rest \<or> valueAfter ''struct'' rest \<or>
         typedefValue rest"
    by (elim exE conjE)
  from b0 have b: "pre = [] \<or> \<not> isWord (last pre)" by (cases "pre = []") simp_all
  from c have "(\<exists>kw. kw \<in> {''using'', ''class'', ''struct''} \<and> valueAfter kw rest) \<or> typedefValue rest"
    by (elim disjE) blast+
  then consider kw where "kw \<in> {''using'', ''class'', ''struct''}" and "valueAfter kw rest"
    | "typedefValue rest"
    by (elim disjE exE conjE)
  then show "matchesValuePattern m"
  proof cases
    case 1
    from 1(2) [unfolded valueAfter_iff] obtain ws post where r: "rest = kw @ ws @ ''Value'' @ post"
      and w: "ws \<noteq> []" "list_all isSpace ws" and p: "post = [] \<or> \<not> isWord (hd post)"
      by (elim exE conjE)
    have e: "m = pre @ kw @ ws @ ''Value'' @ post" by (simp only: m r)
    note k = 1(1)
    have "\<exists>pre kw ws post.
         m = pre @ kw @ ws @ ''Value'' @ post \<and> kw \<in> {''using'', ''class'', ''struct''} \<and>
         (pre = [] \<or> \<not> isWord (last pre)) \<and> ws \<noteq> [] \<and> list_all isSpace ws \<and>
         (post = [] \<or> \<not> isWord (hd post))"
      by (intro exI conjI; fact)
    then show ?thesis unfolding matchesValuePattern_def by (rule disjI1)
  next
    case 2
    from 2 [unfolded typedefValue_iff] obtain ws1 w ws2 post
      where r: "rest = ''typedef'' @ ws1 @ w @ ws2 @ ''Value'' @ post"
      and f: "ws1 \<noteq> []" "list_all isSpace ws1" "w \<noteq> []" "list_all isWord w"
        "ws2 \<noteq> []" "list_all isSpace ws2"
      by (elim exE conjE)
    have e: "m = pre @ ''typedef'' @ ws1 @ w @ ws2 @ ''Value'' @ post" by (simp only: m r)
    have "\<exists>pre ws1 w ws2 post.
         m = pre @ ''typedef'' @ ws1 @ w @ ws2 @ ''Value'' @ post \<and>
         (pre = [] \<or> \<not> isWord (last pre)) \<and> ws1 \<noteq> [] \<and> list_all isSpace ws1 \<and>
         w \<noteq> [] \<and> list_all isWord w \<and> ws2 \<noteq> [] \<and> list_all isSpace ws2"
      by (intro exI conjI; fact)
    then show ?thesis unfolding matchesValuePattern_def by (rule disjI2)
  qed
next
  assume "matchesValuePattern m"
  then have "(\<exists>pre kw ws post.
         m = pre @ kw @ ws @ ''Value'' @ post \<and> kw \<in> {''using'', ''class'', ''struct''} \<and>
         (pre = [] \<or> \<not> isWord (last pre)) \<and> ws \<noteq> [] \<and> list_all isSpace ws \<and>
         (post = [] \<or> \<not> isWord (hd post)))
     \<or> (\<exists>pre ws1 w ws2 post.
         m = pre @ ''typedef'' @ ws1 @ w @ ws2 @ ''Value'' @ post \<and>
         (pre = [] \<or> \<not> isWord (last pre)) \<and> ws1 \<noteq> [] \<and> list_all isSpace ws1 \<and>
         w \<noteq> [] \<and> list_all isWord w \<and> ws2 \<noteq> [] \<and> list_all isSpace ws2)"
    (is "?A \<or> ?B")
    unfolding matchesValuePattern_def .
  then have "\<exists>pre rest. m = pre @ rest \<and>
        (if pre = [] then True else \<not> isWord (last pre)) \<and>
        (valueAfter ''using'' rest \<or> valueAfter ''class'' rest \<or> valueAfter ''struct'' rest \<or>
         typedefValue rest)"
  proof
    assume ?A
    then obtain pre kw ws post where 1: "m = pre @ kw @ ws @ ''Value'' @ post"
      "kw \<in> {''using'', ''class'', ''struct''}"
      "pre = [] \<or> \<not> isWord (last pre)" "ws \<noteq> []" "list_all isSpace ws"
      "post = [] \<or> \<not> isWord (hd post)"
      by (elim exE conjE)
    define rest where "rest = kw @ ws @ ''Value'' @ post"
    have "\<exists>ws' post'. rest = kw @ ws' @ ''Value'' @ post' \<and> ws' \<noteq> [] \<and> list_all isSpace ws' \<and>
                (post' = [] \<or> \<not> isWord (hd post'))"
      by (intro exI conjI; fact)
    then have v: "valueAfter kw rest" by (simp only: valueAfter_iff)
    from 1(2) have "kw = ''using'' \<or> kw = ''class'' \<or> kw = ''struct''" by simp
    with v have c: "valueAfter ''using'' rest \<or> valueAfter ''class'' rest \<or> valueAfter ''struct'' rest \<or>
         typedefValue rest"
      by (elim disjE) simp_all
    have e: "m = pre @ rest" by (simp only: 1(1) rest_def)
    have b: "if pre = [] then True else \<not> isWord (last pre)" using 1(3) by (cases "pre = []") simp_all
    show ?thesis by (intro exI conjI; fact)
  next
    assume ?B
    then obtain pre ws1 w ws2 post where 2: "m = pre @ ''typedef'' @ ws1 @ w @ ws2 @ ''Value'' @ post"
      "pre = [] \<or> \<not> isWord (last pre)" "ws1 \<noteq> []" "list_all isSpace ws1"
      "w \<noteq> []" "list_all isWord w" "ws2 \<noteq> []" "list_all isSpace ws2"
      by (elim exE conjE)
    define rest where "rest = ''typedef'' @ ws1 @ w @ ws2 @ ''Value'' @ post"
    have "\<exists>ws1' w' ws2' post'. rest = ''typedef'' @ ws1' @ w' @ ws2' @ ''Value'' @ post' \<and>
        ws1' \<noteq> [] \<and> list_all isSpace ws1' \<and> w' \<noteq> [] \<and> list_all isWord w' \<and>
        ws2' \<noteq> [] \<and> list_all isSpace ws2'"
      by (intro exI conjI; fact)
    then have "typedefValue rest" by (simp only: typedefValue_iff)
    then have c: "valueAfter ''using'' rest \<or> valueAfter ''class'' rest \<or> valueAfter ''struct'' rest \<or>
         typedefValue rest" by simp
    have e: "m = pre @ rest" by (simp only: 2(1) rest_def)
    have b: "if pre = [] then True else \<not> isWord (last pre)" using 2(2) by (cases "pre = []") simp_all
    show ?thesis by (intro exI conjI; fact)
  qed
  then show "hasValueType m"
    by (simp only: hasValueType_def hasValueTypeFrom_iff option.case)
qed

text \<open>
  Claim C8, as amended. \<^verbatim>\<open>generateModuleInclude\<close> looks for a match of its pattern in
  the module include, and for nothing else. If there is none, it throws the error whose
  message names the \<^verbatim>\<open>Value\<close> type and shows \<^verbatim>\<open>using Value = <...>;\<close>, and
  it leaves the generator, with every slot, as it was, whatever the generator held. If
  there is one, the call throws nothing and writes the module include and the two hook
  slots. The pattern finds a match exactly in a text where \<^verbatim>\<open>using\<close>,
  \<^verbatim>\<open>class\<close> or \<^verbatim>\<open>struct\<close>, white space and \<^verbatim>\<open>Value\<close> stand as whole
  words, or \<^verbatim>\<open>typedef\<close>, white space, one word, white space and the letters
  \<^verbatim>\<open>Value\<close>. This is a test on the characters: a declaration of the type that
  has another form does not pass it, and a text that declares no such type can pass it.
\<close>

theorem module_include_requires_value:
  "(\<not> hasValueType m \<longrightarrow>
      generateModuleInclude bold m g =
        (Some (Error ([CHR 0x0A] @ ''C++ plugin should provide module include and define at least the '' @
                      bold ''Value'' @ '' type. Example:'' @ [CHR 0x0A, CHR 0x0A] @
                      bold (''using Value = <...>;'' @ [CHR 0x0A]))), g))
   \<and> (hasValueType m \<longrightarrow>
      fst (generateModuleInclude bold m g) = None
      \<and> slots (snd (generateModuleInclude bold m g)) ''MODULE_INCLUDE'' = Some m
      \<and> dom (slots (snd (generateModuleInclude bold m g))) =
          dom (slots g) \<union> {''ON_PARSE_BEGIN_CALL'', ''ON_PARSE_END_CALL'', ''MODULE_INCLUDE''})
   \<and> (hasValueType m \<longleftrightarrow> matchesValuePattern m)"
proof -
  have "hasValueType m \<longleftrightarrow> matchesValuePattern m" by (rule hasValueType_pattern)
  then show ?thesis
    by (auto simp: generateModuleInclude_def missingValueMessage_def writeData_def Let_def)
qed

theorem module_include_requires_value_witness:
  "(let g = \<lparr>slots = [''TABLE'' \<mapsto> ''{}''], productionHandlers = [], lexHandlers = [],
             terminalsMap = Map.empty\<rparr>;
        m = ''#include <string>'' @ [CHR 0x0A] @ ''using Value = int;''
    in \<not> hasValueType ''#include <string>''
       \<and> \<not> matchesValuePattern ''#include <string>''
       \<and> fst (generateModuleInclude id ''#include <string>'' g) \<noteq> None
       \<and> snd (generateModuleInclude id ''#include <string>'' g) = g
       \<and> hasValueType m
       \<and> matchesValuePattern m
       \<and> declaresValue m
       \<and> fst (generateModuleInclude id m g) = None
       \<and> slots (snd (generateModuleInclude id m g)) ''MODULE_INCLUDE'' = Some m)"
proof -
  define g where "g = \<lparr>slots = [''TABLE'' \<mapsto> ''{}''], productionHandlers = [], lexHandlers = [],
             terminalsMap = Map.empty\<rparr>"
  define m where "m = ''#include <string>'' @ [CHR 0x0A] @ ''using Value = int;''"
  have a: "\<not> hasValueType ''#include <string>''"
    by (simp add: hasValueType_def valueAfter_def typedefValue_def isWord_def)
  have b: "hasValueType m"
    by (simp add: m_def hasValueType_def valueAfter_def typedefValue_def isWord_def isSpace_def)
  note t1 = module_include_requires_value [of "''#include <string>''" id g]
  note t2 = module_include_requires_value [of m id g]
  from a t1 have "fst (generateModuleInclude id ''#include <string>'' g) \<noteq> None
        \<and> snd (generateModuleInclude id ''#include <string>'' g) = g" by simp
  moreover from a t1 have "\<not> matchesValuePattern ''#include <string>''" by blast
  moreover from b t2 have "matchesValuePattern m" by blast
  moreover from b t2
  have "fst (generateModuleInclude id m g) = None
        \<and> slots (snd (generateModuleInclude id m g)) ''MODULE_INCLUDE'' = Some m"
    by blast
  moreover have "declaresValue m" unfolding m_def by code_simp
  ultimately show ?thesis using a b
    unfolding Let_def g_def [symmetric] m_def [symmetric] by blast
qed

theorem module_include_requires_value_counterexample:
  "(let g = \<lparr>slots = Map.empty, productionHandlers = [], lexHandlers = [], terminalsMap = Map.empty\<rparr>
    in declaresValue ''typedef unsigned int Value;''
       \<and> fst (generateModuleInclude id ''typedef unsigned int Value;'' g) \<noteq> None
       \<and> declaresValue ''enum Value { A };''
       \<and> fst (generateModuleInclude id ''enum Value { A };'' g) \<noteq> None
       \<and> \<not> declaresValue ''// no using Value here''
       \<and> fst (generateModuleInclude id ''// no using Value here'' g) = None
       \<and> \<not> declaresValue ''typedef int ValueType;''
       \<and> fst (generateModuleInclude id ''typedef int ValueType;'' g) = None)"
  by code_simp

end
